theory Spec2Isabelle
  imports Main "HOL-Library.Word" "HOL-Library.Sublist"
begin

unbundle bit_operations_syntax

section \<open>CRC-16 of the firmware image\<close>

type_synonym u8 = "8 word"
type_synonym u16 = "16 word"
type_synonym u32 = "32 word"
type_synonym u64 = "64 word"

text \<open>
  The body of the inner \<^verbatim>\<open>for (bit = 0; bit < 8; bit++)\<close> loop of
  \<^verbatim>\<open>fw_master_crc16\<close>: test the top bit, shift left by one in 16 bits, and
  xor the polynomial in when the top bit was set.
\<close>

definition crc_shift :: "u16 \<Rightarrow> u16" where
  "crc_shift crc = (if crc AND 0x8000 \<noteq> 0 then push_bit 1 crc XOR 0x1021 else push_bit 1 crc)"

fun crc_bit_loop :: "nat \<Rightarrow> u16 \<Rightarrow> u16" where
  "crc_bit_loop 0 crc = crc"
| "crc_bit_loop (Suc n) crc = crc_bit_loop n (crc_shift crc)"

text \<open>One iteration of the outer loop: \<^verbatim>\<open>crc ^= (uint16_t)data[i] << 8\<close>, then eight shifts.\<close>

definition crc_byte :: "u16 \<Rightarrow> u8 \<Rightarrow> u16" where
  "crc_byte crc b = crc_bit_loop 8 (crc XOR push_bit 8 (ucast b))"

text \<open>The outer loop, started from an arbitrary CRC state.\<close>

fun crc_update :: "u16 \<Rightarrow> u8 list \<Rightarrow> u16" where
  "crc_update crc [] = crc"
| "crc_update crc (b # bs) = crc_update (crc_byte crc b) bs"

definition fw_master_crc16 :: "u8 list \<Rightarrow> u16" where
  "fw_master_crc16 data = crc_update 0xFFFF data"

text \<open>
  CRC-16/CCITT-FALSE as the specification words it: a 16-bit register initialised to
  \<open>0xFFFF\<close>, the message fed bit by bit with the most significant bit of each byte
  first, polynomial \<open>0x1021\<close>, no reflection and no final xor. Feeding one bit shifts the
  register left and xors the polynomial in when the bit shifted out differs from the
  message bit.
\<close>

definition bits_msb_first :: "u8 \<Rightarrow> bool list" where
  "bits_msb_first b = map (bit b) [7, 6, 5, 4, 3, 2, 1, 0]"

definition crc_feed_bit :: "u16 \<Rightarrow> u16 \<Rightarrow> bool \<Rightarrow> u16" where
  "crc_feed_bit poly crc x = (if bit crc 15 \<noteq> x then push_bit 1 crc XOR poly else push_bit 1 crc)"

definition crc16_ccitt_false :: "u8 list \<Rightarrow> u16" where
  "crc16_ccitt_false msg = foldl (crc_feed_bit 0x1021) 0xFFFF (concat (map bits_msb_first msg))"


text \<open>The top bit of the CRC register as a mask.\<close>

definition top16 :: u16 where
  "top16 = push_bit 15 1"

section \<open>Firmware upload orchestrator\<close>

datatype fw_image_type = FW_IMAGE_MAIN | FW_IMAGE_BOOTLOADER | FW_IMAGE_CONFIG

record fw_upload_plan =
  firmwarePath :: string
  image_type :: fw_image_type
  targetBank :: u8
  targetNodeId :: u8
  maxChunkBytes :: u32
  expectedCrc :: u16
  firmwareVersion :: u16

text \<open>
  What the C library reports about one file: its bytes, whether the two \<^verbatim>\<open>fseek\<close>
  calls succeed, and the \<^verbatim>\<open>long\<close> that \<^verbatim>\<open>ftell\<close> returns after seeking
  to the end (negative on error). \<^verbatim>\<open>fread\<close> delivers the bytes in order.
\<close>

record fw_file =
  contents :: "u8 list"
  seek_end_ok :: bool
  tell :: int
  seek_set_ok :: bool

text \<open>
  The collaborators of the orchestrator. \<open>fs\<close> is \<^verbatim>\<open>fopen\<close> (\<open>None\<close> when the
  file cannot be opened), \<open>malloc_ok n\<close> says whether allocating \<open>n\<close> bytes succeeds.
  The six transport operations are weak symbols that the platform overrides; a query
  yields \<open>Some v\<close> when it returns true and stores \<open>v\<close>, and \<open>send_chunk\<close> also takes
  the number of chunks sent before, since the link may answer differently each time.
\<close>

record fw_env =
  fs :: "string \<Rightarrow> fw_file option"
  malloc_ok :: "nat \<Rightarrow> bool"
  query_slave_crc :: "u16 option"
  query_slave_version :: "u16 option"
  send_metadata :: "nat \<Rightarrow> u16 \<Rightarrow> bool"
  send_start_command :: bool
  send_chunk :: "nat \<Rightarrow> u8 list \<Rightarrow> nat \<Rightarrow> bool"
  send_finalize_request :: "u16 \<Rightarrow> bool"

text \<open>The transport operations a session invoked, in order, with their arguments.\<close>

datatype fw_call =
    QuerySlaveCrc
  | QuerySlaveVersion
  | SendMetadata nat u16
  | SendStartCommand
  | SendChunk "u8 list" nat
  | SendFinalizeRequest u16

subsection \<open>ESP32 master: the image is streamed from the file\<close>

definition fw_master_file_info :: "fw_env \<Rightarrow> fw_upload_plan \<Rightarrow> nat option" where
  "fw_master_file_info env plan =
     (case fs env (firmwarePath plan) of
        None \<Rightarrow> None
      | Some f \<Rightarrow>
          if \<not> seek_end_ok f then None
          else if tell f \<le> 0 then None
          else Some (nat (tell f)))"

text \<open>
  The \<^verbatim>\<open>while ((n = fread(buf, 1, sizeof(buf), f)) > 0)\<close> loop of
  \<^verbatim>\<open>fw_master_crc_from_file\<close> with its 1024-byte buffer; \<open>rest\<close> is the unread part
  of the file. The inner loops over the buffer are those of \<^verbatim>\<open>fw_master_crc16\<close>.
\<close>

function crc_read_loop :: "u16 \<Rightarrow> nat \<Rightarrow> u8 list \<Rightarrow> u16 \<times> nat" where
  "crc_read_loop crc total_n rest =
     (let buf = take 1024 rest; n = length buf
      in if n > 0 then crc_read_loop (crc_update crc buf) (total_n + n) (drop 1024 rest)
         else (crc, total_n))"
  by pat_completeness auto
termination
  by (relation "measure (\<lambda>(crc, total_n, rest). length rest)") auto

declare crc_read_loop.simps [simp del]

definition fw_master_crc_from_file :: "fw_env \<Rightarrow> fw_upload_plan \<Rightarrow> (u16 \<times> nat) option" where
  "fw_master_crc_from_file env plan =
     (case fs env (firmwarePath plan) of
        None \<Rightarrow> None
      | Some f \<Rightarrow>
          (case crc_read_loop 0xFFFF 0 (contents f) of
             (crc, total_n) \<Rightarrow> if total_n > 0 then Some (crc, total_n) else None))"

text \<open>
  The read-and-send loop of \<^verbatim>\<open>fw_master_stream_file\<close>. The result is the flag
  \<open>ok\<close>, the final \<open>offset\<close> and the chunks handed to \<^verbatim>\<open>fw_master_send_chunk\<close>;
  \<open>k\<close> counts the chunks sent so far.
\<close>

function stream_file_loop ::
  "(nat \<Rightarrow> u8 list \<Rightarrow> nat \<Rightarrow> bool) \<Rightarrow> nat \<Rightarrow> u8 list \<Rightarrow> nat \<Rightarrow> nat \<Rightarrow> bool \<times> nat \<times> fw_call list" where
  "stream_file_loop sendc chunkSize rest offset k =
     (let buf = take chunkSize rest; n = length buf
      in if n > 0 then
           (if \<not> sendc k buf offset then (False, offset, [SendChunk buf offset])
            else (case stream_file_loop sendc chunkSize (drop chunkSize rest) (offset + n) (Suc k) of
                    (ok, off, calls) \<Rightarrow> (ok, off, SendChunk buf offset # calls)))
         else (True, offset, []))"
  by pat_completeness auto
termination
  by (relation "measure (\<lambda>(sendc, chunkSize, rest, offset, k). length rest)") auto

declare stream_file_loop.simps [simp del]

definition stream_chunk_size :: "fw_upload_plan \<Rightarrow> nat" where
  "stream_chunk_size plan =
     (if maxChunkBytes plan = 0 \<or> maxChunkBytes plan > 1024 then 1024
      else unat (maxChunkBytes plan))"

definition fw_master_stream_file :: "fw_env \<Rightarrow> fw_upload_plan \<Rightarrow> nat \<Rightarrow> bool \<times> fw_call list" where
  "fw_master_stream_file env plan fileSize =
     (case fs env (firmwarePath plan) of
        None \<Rightarrow> (False, [])
      | Some f \<Rightarrow>
          let chunkSize = stream_chunk_size plan
          in if \<not> malloc_ok env chunkSize then (False, [])
             else (case stream_file_loop (send_chunk env) chunkSize (contents f) 0 0 of
                     (ok, offset, calls) \<Rightarrow>
                       if ok \<and> offset \<noteq> fileSize then (False, calls) else (ok, calls)))"

text \<open>
  \<^verbatim>\<open>send_metadata && send_start_command && stream_file && send_finalize_request\<close>:
  the C conjunction stops at the first operation that fails.
\<close>

definition esp_upload_sequence :: "fw_env \<Rightarrow> fw_upload_plan \<Rightarrow> nat \<Rightarrow> u16 \<Rightarrow> bool \<times> fw_call list" where
  "esp_upload_sequence env plan fileSize crc =
     (if \<not> send_metadata env fileSize crc then (False, [SendMetadata fileSize crc])
      else if \<not> send_start_command env then (False, [SendMetadata fileSize crc, SendStartCommand])
      else (case fw_master_stream_file env plan fileSize of
              (ok, calls) \<Rightarrow>
                if \<not> ok then (False, [SendMetadata fileSize crc, SendStartCommand] @ calls)
                else (send_finalize_request env crc,
                      [SendMetadata fileSize crc, SendStartCommand] @ calls @ [SendFinalizeRequest crc])))"

text \<open>The local CRC: the plan's \<^verbatim>\<open>expectedCrc\<close>, or the file's CRC when that is zero.\<close>

definition esp_local_crc :: "fw_env \<Rightarrow> fw_upload_plan \<Rightarrow> u16 option" where
  "esp_local_crc env plan =
     (if expectedCrc plan = 0 then map_option fst (fw_master_crc_from_file env plan)
      else Some (expectedCrc plan))"

definition esp_run_upload_session :: "fw_env \<Rightarrow> fw_upload_plan \<Rightarrow> bool \<times> fw_call list" where
  "esp_run_upload_session env plan =
     (case fw_master_file_info env plan of
        None \<Rightarrow> (False, [])
      | Some fileSize \<Rightarrow>
          (case esp_local_crc env plan of
             None \<Rightarrow> (False, [])
           | Some crc \<Rightarrow> esp_upload_sequence env plan fileSize crc))"

definition esp_run_upload_if_needed :: "fw_env \<Rightarrow> fw_upload_plan \<Rightarrow> bool \<times> fw_call list" where
  "esp_run_upload_if_needed env plan =
     (case fw_master_file_info env plan of
        None \<Rightarrow> (False, [])
      | Some fileSize \<Rightarrow>
          (case esp_local_crc env plan of
             None \<Rightarrow> (False, [])
           | Some localCrc \<Rightarrow>
               let localVersion = firmwareVersion plan;
                   crcQueried = query_slave_crc env;
                   verQueried = query_slave_version env
               in if crcQueried \<noteq> None \<and> verQueried \<noteq> None
                     \<and> crcQueried = Some localCrc \<and> verQueried = Some localVersion
                  then (True, [QuerySlaveCrc, QuerySlaveVersion])
                  else (case esp_upload_sequence env plan fileSize localCrc of
                          (ok, calls) \<Rightarrow> (ok, [QuerySlaveCrc, QuerySlaveVersion] @ calls))))"

subsection \<open>Raspberry Pi master: the image is loaded into memory\<close>

definition fw_master_load_payload :: "fw_env \<Rightarrow> fw_upload_plan \<Rightarrow> u8 list option" where
  "fw_master_load_payload env plan =
     (case fs env (firmwarePath plan) of
        None \<Rightarrow> None
      | Some f \<Rightarrow>
          if \<not> seek_end_ok f then None
          else if \<not> tell f > 0 then None
          else if \<not> seek_set_ok f then None
          else if \<not> malloc_ok env (nat (tell f)) then None
          else let buffer = take (nat (tell f)) (contents f); readBytes = length buffer
               in if readBytes \<noteq> nat (tell f) then None else Some buffer)"

text \<open>
  The \<^verbatim>\<open>while (offset < payload->size)\<close> loop of \<^verbatim>\<open>fw_master_stream_payload\<close>.
  With \<^verbatim>\<open>maxChunkBytes = 0\<close> the offset never moves, so the loop is given fuel:
  \<open>None\<close> says that it has not returned after that many iterations.
\<close>

fun stream_payload_loop ::
  "nat \<Rightarrow> (nat \<Rightarrow> u8 list \<Rightarrow> nat \<Rightarrow> bool) \<Rightarrow> nat \<Rightarrow> u8 list \<Rightarrow> nat \<Rightarrow> nat \<Rightarrow> (bool \<times> fw_call list) option" where
  "stream_payload_loop fuel sendc maxChunk buffer offset k =
     (if offset < length buffer then
        (case fuel of
           0 \<Rightarrow> None
         | Suc fuel' \<Rightarrow>
             let remaining = length buffer - offset;
                 chunkLen = (if remaining < maxChunk then remaining else maxChunk);
                 chunk = take chunkLen (drop offset buffer)
             in if \<not> sendc k chunk offset then Some (False, [SendChunk chunk offset])
                else (case stream_payload_loop fuel' sendc maxChunk buffer (offset + chunkLen) (Suc k) of
                        None \<Rightarrow> None
                      | Some (ok, calls) \<Rightarrow> Some (ok, SendChunk chunk offset # calls)))
      else Some (True, []))"

declare stream_payload_loop.simps [simp del]

definition fw_master_stream_payload ::
  "nat \<Rightarrow> fw_env \<Rightarrow> fw_upload_plan \<Rightarrow> u8 list \<Rightarrow> (bool \<times> fw_call list) option" where
  "fw_master_stream_payload fuel env plan payload =
     stream_payload_loop fuel (send_chunk env) (unat (maxChunkBytes plan)) payload 0 0"

text \<open>The four steps after the pre-check, each followed by \<^verbatim>\<open>goto cleanup\<close> on failure.\<close>

definition rpi_upload_sequence ::
  "nat \<Rightarrow> fw_env \<Rightarrow> fw_upload_plan \<Rightarrow> u8 list \<Rightarrow> u16 \<Rightarrow> (bool \<times> fw_call list) option" where
  "rpi_upload_sequence fuel env plan payload crc =
     (if \<not> send_metadata env (length payload) crc then Some (False, [SendMetadata (length payload) crc])
      else if \<not> send_start_command env
        then Some (False, [SendMetadata (length payload) crc, SendStartCommand])
      else (case fw_master_stream_payload fuel env plan payload of
              None \<Rightarrow> None
            | Some (ok, calls) \<Rightarrow>
                if \<not> ok then Some (False, [SendMetadata (length payload) crc, SendStartCommand] @ calls)
                else Some (send_finalize_request env crc,
                           [SendMetadata (length payload) crc, SendStartCommand] @ calls
                             @ [SendFinalizeRequest crc])))"

definition rpi_local_crc :: "fw_upload_plan \<Rightarrow> u8 list \<Rightarrow> u16" where
  "rpi_local_crc plan payload =
     (if expectedCrc plan = 0 then fw_master_crc16 payload else expectedCrc plan)"

definition rpi_run_upload_session ::
  "nat \<Rightarrow> fw_env \<Rightarrow> fw_upload_plan \<Rightarrow> (bool \<times> fw_call list) option" where
  "rpi_run_upload_session fuel env plan =
     (case fw_master_load_payload env plan of
        None \<Rightarrow> Some (False, [])
      | Some payload \<Rightarrow> rpi_upload_sequence fuel env plan payload (rpi_local_crc plan payload))"

definition rpi_run_upload_if_needed ::
  "nat \<Rightarrow> fw_env \<Rightarrow> fw_upload_plan \<Rightarrow> (bool \<times> fw_call list) option" where
  "rpi_run_upload_if_needed fuel env plan =
     (case fw_master_load_payload env plan of
        None \<Rightarrow> Some (False, [])
      | Some payload \<Rightarrow>
          let localCrc = rpi_local_crc plan payload
          in (case query_slave_crc env of
                Some slaveCrc \<Rightarrow>
                  if slaveCrc = localCrc then Some (True, [QuerySlaveCrc])
                  else map_option (\<lambda>(ok, calls). (ok, QuerySlaveCrc # calls))
                         (rpi_upload_sequence fuel env plan payload localCrc)
              | None \<Rightarrow>
                  map_option (\<lambda>(ok, calls). (ok, QuerySlaveCrc # calls))
                    (rpi_upload_sequence fuel env plan payload localCrc)))"


subsection \<open>Chunking as the specification describes it\<close>

text \<open>
  Chunk \<open>i\<close> of an image cut into pieces of \<open>c\<close> bytes, with its offset; whether the
  link accepts it as the \<open>i\<close>-th chunk; and the number of chunks of an image.
\<close>

definition chunk_call :: "nat \<Rightarrow> u8 list \<Rightarrow> nat \<Rightarrow> fw_call" where
  "chunk_call c data i = SendChunk (take c (drop (i * c) data)) (i * c)"

definition chunk_accepted :: "(nat \<Rightarrow> u8 list \<Rightarrow> nat \<Rightarrow> bool) \<Rightarrow> nat \<Rightarrow> u8 list \<Rightarrow> nat \<Rightarrow> bool" where
  "chunk_accepted sendc c data i = sendc i (take c (drop (i * c) data)) (i * c)"

definition chunk_count :: "nat \<Rightarrow> u8 list \<Rightarrow> nat" where
  "chunk_count c data = (length data + c - 1) div c"

text \<open>Sending the chunks with the given indices in order, stopping at the first refusal.\<close>

fun send_all :: "(nat \<Rightarrow> u8 list \<Rightarrow> nat \<Rightarrow> bool) \<Rightarrow> nat \<Rightarrow> u8 list \<Rightarrow> nat list \<Rightarrow> bool \<times> fw_call list" where
  "send_all sendc c data [] = (True, [])"
| "send_all sendc c data (i # is) =
     (if \<not> chunk_accepted sendc c data i then (False, [chunk_call c data i])
      else (case send_all sendc c data is of (ok, calls) \<Rightarrow> (ok, chunk_call c data i # calls)))"






subsection \<open>Scenario data\<close>

text \<open>A link on which every operation succeeds and both queries fail, as with the stubs.\<close>

definition quiet_env :: "(string \<Rightarrow> fw_file option) \<Rightarrow> fw_env" where
  "quiet_env files =
     \<lparr> fs = files, malloc_ok = (\<lambda>n. True), query_slave_crc = None, query_slave_version = None,
       send_metadata = (\<lambda>size crc. True), send_start_command = True,
       send_chunk = (\<lambda>k chunk offset. True), send_finalize_request = (\<lambda>crc. True) \<rparr>"


definition plan_for :: "string \<Rightarrow> u32 \<Rightarrow> u16 \<Rightarrow> u16 \<Rightarrow> fw_upload_plan" where
  "plan_for path chunk crc version =
     \<lparr> firmwarePath = path, image_type = FW_IMAGE_MAIN, targetBank = 1, targetNodeId = 0x10,
       maxChunkBytes = chunk, expectedCrc = crc, firmwareVersion = version \<rparr>"

definition regular_file :: "u8 list \<Rightarrow> fw_file" where
  "regular_file bytes =
     \<lparr> contents = bytes, seek_end_ok = True, tell = int (length bytes), seek_set_ok = True \<rparr>"

definition no_files :: "string \<Rightarrow> fw_file option" where
  "no_files path = None"

definition one_file_fs :: "fw_file \<Rightarrow> string \<Rightarrow> fw_file option" where
  "one_file_fs f path = Some f"



definition check_bytes :: "u8 list" where
  "check_bytes = [0x31, 0x32, 0x33, 0x34, 0x35, 0x36, 0x37, 0x38, 0x39]"

section \<open>SDO client on raw CAN frames\<close>

definition SDO_ABORT :: u8 where "SDO_ABORT = 0x80"
definition SDO_SCS_DOWNLOAD_INIT_RESP :: u8 where "SDO_SCS_DOWNLOAD_INIT_RESP = 0x60"
definition SDO_ABORT_NONE :: u32 where "SDO_ABORT_NONE = 0x00000000"
definition SDO_ABORT_TOGGLE_ERROR :: u32 where "SDO_ABORT_TOGGLE_ERROR = 0x05030000"
definition SDO_ABORT_TIMEOUT :: u32 where "SDO_ABORT_TIMEOUT = 0x05040000"

record sdo_client =
  g_can_socket :: int
  g_last_abort_code :: u32

text \<open>
  What the bus does with one request frame: \<^verbatim>\<open>rpi_can_send\<close> fails; or the frame is
  sent and, while \<^verbatim>\<open>wait_for_response\<close> waits, \<^verbatim>\<open>select\<close> fails, nothing arrives on
  the expected COB-ID before the timeout, or a frame with these data bytes arrives there
  (\<^verbatim>\<open>rpi_can_recv\<close> returns their number, the DLC of the frame).
\<close>

datatype sdo_event = SendFailed | SelectFailed | TimedOut | Reply "u8 list"

text \<open>
  \<^verbatim>\<open>response[i]\<close>: the receive buffer is zeroed before the frame's data bytes are
  copied in, so a byte beyond the received length reads as zero.
\<close>

definition byte_at :: "u8 list \<Rightarrow> nat \<Rightarrow> u8" where
  "byte_at r i = (if i < length r then r ! i else 0)"

definition parse_abort_code :: "u8 list \<Rightarrow> u32" where
  "parse_abort_code response =
     ucast (byte_at response 4) OR push_bit 8 (ucast (byte_at response 5))
       OR push_bit 16 (ucast (byte_at response 6)) OR push_bit 24 (ucast (byte_at response 7))"

text \<open>\<^verbatim>\<open>memset(&frame[1], 0, 7); memcpy(&frame[1], data + offset, segLen)\<close>.\<close>

definition pad_to :: "nat \<Rightarrow> u8 list \<Rightarrow> u8 list" where
  "pad_to n bs = bs @ replicate (n - length bs) 0"

definition segment_frame :: "u8 \<Rightarrow> u8 list \<Rightarrow> nat \<Rightarrow> u8 list" where
  "segment_frame toggle data offset =
     (let remaining = length data - offset;
          segLen = (if remaining > 7 then 7 else remaining);
          lastSegment = (remaining \<le> 7);
          n = (of_nat (7 - segLen) :: u8)
      in (push_bit 4 toggle OR push_bit 1 n OR (if lastSegment then 1 else 0))
           # pad_to 7 (take segLen (drop offset data)))"

text \<open>
  The segment loop of \<^verbatim>\<open>sdo_download\<close>. \<open>bus k\<close> is the fate of the \<open>k\<close>-th
  request of the transfer. The result is the return value, the client state and the
  frames that went out on the bus. \<^verbatim>\<open>wait_for_response\<close> takes a frame only
  \<^verbatim>\<open>if (len > 0)\<close>: one without data bytes is passed over, and the wait runs into the
  timeout.
\<close>

function segment_loop ::
  "(nat \<Rightarrow> sdo_event) \<Rightarrow> sdo_client \<Rightarrow> u8 list \<Rightarrow> nat \<Rightarrow> u8 \<Rightarrow> nat \<Rightarrow> bool \<times> sdo_client \<times> u8 list list" where
  "segment_loop bus st data offset toggle k =
     (if offset < length data then
        (let remaining = length data - offset;
             segLen = (if remaining > 7 then 7 else remaining);
             frame = segment_frame toggle data offset
         in case bus k of
              SendFailed \<Rightarrow> (False, st, [])
            | SelectFailed \<Rightarrow> (False, st, [frame])
            | TimedOut \<Rightarrow> (False, st\<lparr>g_last_abort_code := SDO_ABORT_TIMEOUT\<rparr>, [frame])
            | Reply response \<Rightarrow>
                if \<not> length response > 0
                then (False, st\<lparr>g_last_abort_code := SDO_ABORT_TIMEOUT\<rparr>, [frame])
                else if byte_at response 0 AND 0xE0 = SDO_ABORT
                then (False, st\<lparr>g_last_abort_code := parse_abort_code response\<rparr>, [frame])
                else let respToggle = drop_bit 4 (byte_at response 0) AND 0x01
                     in if respToggle \<noteq> toggle
                        then (False, st\<lparr>g_last_abort_code := SDO_ABORT_TOGGLE_ERROR\<rparr>, [frame])
                        else (case segment_loop bus st data (offset + segLen) (toggle XOR 1) (Suc k) of
                                (ok, st', frames) \<Rightarrow> (ok, st', frame # frames)))
      else (True, st, []))"
  by pat_completeness auto
termination
  by (relation "measure (\<lambda>(bus, st, data, offset, toggle, k). length data - offset)") auto

declare segment_loop.simps [simp del]

definition index_lo :: "u16 \<Rightarrow> u8" where "index_lo index = ucast (index AND 0xFF)"
definition index_hi :: "u16 \<Rightarrow> u8" where "index_hi index = ucast (drop_bit 8 index AND 0xFF)"

text \<open>\<^verbatim>\<open>(uint8_t)((len >> sh) & 0xFF)\<close> for the length of the payload.\<close>

definition len_byte :: "nat \<Rightarrow> nat \<Rightarrow> u8" where
  "len_byte len sh = of_nat ((len div 2 ^ sh) mod 256)"

definition expedited_frame :: "u16 \<Rightarrow> u8 \<Rightarrow> u8 list \<Rightarrow> u8 list" where
  "expedited_frame index subIndex data =
     (let n = (of_nat (4 - length data) :: u8)
      in [0x23 OR push_bit 2 n, index_lo index, index_hi index, subIndex] @ pad_to 4 data)"

definition initiate_frame :: "u16 \<Rightarrow> u8 \<Rightarrow> nat \<Rightarrow> u8 list" where
  "initiate_frame index subIndex len =
     [0x21, index_lo index, index_hi index, subIndex,
      len_byte len 0, len_byte len 8, len_byte len 16, len_byte len 24]"

definition sdo_download ::
  "(nat \<Rightarrow> sdo_event) \<Rightarrow> sdo_client \<Rightarrow> u8 \<Rightarrow> u16 \<Rightarrow> u8 \<Rightarrow> u8 list \<Rightarrow> bool \<times> sdo_client \<times> u8 list list" where
  "sdo_download bus st0 nodeId index subIndex data =
     (if g_can_socket st0 < 0 then (False, st0, [])
      else
        let st = st0\<lparr>g_last_abort_code := SDO_ABORT_NONE\<rparr>;
            frame = (if length data \<le> 4 then expedited_frame index subIndex data
                     else initiate_frame index subIndex (length data))
        in case bus 0 of
             SendFailed \<Rightarrow> (False, st, [])
           | SelectFailed \<Rightarrow> (False, st, [frame])
           | TimedOut \<Rightarrow> (False, st\<lparr>g_last_abort_code := SDO_ABORT_TIMEOUT\<rparr>, [frame])
           | Reply response \<Rightarrow>
               if \<not> length response > 0
               then (False, st\<lparr>g_last_abort_code := SDO_ABORT_TIMEOUT\<rparr>, [frame])
               else if byte_at response 0 AND 0xE0 = SDO_ABORT
               then (False, st\<lparr>g_last_abort_code := parse_abort_code response\<rparr>, [frame])
               else if byte_at response 0 AND 0xE0 \<noteq> SDO_SCS_DOWNLOAD_INIT_RESP
               then (False, st, [frame])
               else if length data \<le> 4 then (True, st, [frame])
               else (case segment_loop bus st data 0 0 1 of
                       (ok, st', frames) \<Rightarrow> (ok, st', frame # frames)))"

text \<open>\<^verbatim>\<open>sdo_get_last_abort_code\<close> reads the global.\<close>

definition sdo_get_last_abort_code :: "sdo_client \<Rightarrow> u32" where
  "sdo_get_last_abort_code st = g_last_abort_code st"

text \<open>
  The segmented download as the specification describes it: segment \<open>i\<close> carries the
  toggle bit \<open>i mod 2\<close>, the next \<open>min 7 remaining\<close> payload bytes, and the command byte
  \<open>(toggle << 4) | ((7 - segLen) << 1) | last\<close>; there are \<open>ceil (len / 7)\<close> of them
  after the initiate frame.
\<close>

definition spec_segment :: "u8 list \<Rightarrow> nat \<Rightarrow> u8 list" where
  "spec_segment data i =
     (let remaining = length data - 7 * i;
          segLen = min 7 remaining;
          toggle = i mod 2;
          last_flag = (if remaining \<le> 7 then 1 else 0)
      in of_nat (toggle * 16 + (7 - segLen) * 2 + last_flag)
           # take segLen (drop (7 * i) data) @ replicate (7 - segLen) 0)"

definition spec_segmented_download :: "u16 \<Rightarrow> u8 \<Rightarrow> u8 list \<Rightarrow> u8 list list" where
  "spec_segmented_download index subIndex data =
     [0x21, ucast index, ucast (drop_bit 8 index), subIndex,
      ucast (of_nat (length data) :: u32), ucast (drop_bit 8 (of_nat (length data) :: u32)),
      ucast (drop_bit 16 (of_nat (length data) :: u32)), ucast (drop_bit 24 (of_nat (length data) :: u32))]
       # map (spec_segment data) [0 ..< (length data + 6) div 7]"


text \<open>
  A server that acknowledges everything: \<open>0x60\<close> to the initiate request, then
  \<open>0x20\<close> with the toggle bit of the segment to each segment request.
\<close>

definition acking_server :: "nat \<Rightarrow> sdo_event" where
  "acking_server k = (if k = 0 then Reply [0x60] else Reply [0x20 OR push_bit 4 (of_nat ((k - 1) mod 2))])"

text \<open>
  The two things a frame that answers a segment request can be when it has a command
  byte and is not an abort: an acknowledgement echoing the toggle bit, or one with the
  other toggle bit.
\<close>

definition echoes_toggle :: "u8 \<Rightarrow> u8 list \<Rightarrow> bool" where
  "echoes_toggle toggle response \<longleftrightarrow>
     0 < length response \<and> byte_at response 0 AND 0xE0 \<noteq> SDO_ABORT
     \<and> drop_bit 4 (byte_at response 0) AND 0x01 = toggle"

definition toggle_mismatch :: "u8 \<Rightarrow> u8 list \<Rightarrow> bool" where
  "toggle_mismatch toggle response \<longleftrightarrow>
     0 < length response \<and> byte_at response 0 AND 0xE0 \<noteq> SDO_ABORT
     \<and> drop_bit 4 (byte_at response 0) AND 0x01 \<noteq> toggle"

text \<open>A server whose segment acknowledgements always carry toggle bit 0.\<close>

definition stale_toggle_server :: "nat \<Rightarrow> sdo_event" where
  "stale_toggle_server k = (if k = 0 then Reply [0x60] else Reply [0x20])"

definition open_client :: sdo_client where
  "open_client = \<lparr>g_can_socket = 3, g_last_abort_code = SDO_ABORT_NONE\<rparr>"

section \<open>LSS master engine\<close>

datatype LssState_t =
    LSS_INIT
  | LSS_SCANNING
  | LSS_CONFIG_ID
  | LSS_CONFIG_STORE
  | LSS_VERIFY_ID
  | LSS_DESELECT
  | LSS_ACTIVATE
  | LSS_DONE

text \<open>
  Modelled from the spec: the return codes of the LSS master library, whose header is
  not part of the sources. The engine only compares them for equality.
\<close>

datatype CO_LSSmaster_return_t =
    CO_LSSmaster_SCAN_FINISHED
  | CO_LSSmaster_WAIT_SLAVE
  | CO_LSSmaster_OK
  | CO_LSSmaster_TIMEOUT
  | CO_LSSmaster_ILLEGAL_ARGUMENT
  | CO_LSSmaster_INVALID_STATE
  | CO_LSSmaster_SCAN_NOACK
  | CO_LSSmaster_SCAN_FAILED
  | CO_LSSmaster_OK_ILLEGAL_ARGUMENT
  | CO_LSSmaster_OK_MANUFACTURER

text \<open>
  Modelled from the spec: the LSS address, four 32-bit fields in the order vendor-ID,
  product-code, revision-number, serial-number.
\<close>

record CO_LSS_address_t =
  vendorID :: u32
  productCode :: u32
  revisionNumber :: u32
  serialNumber :: u32

text \<open>
  Modelled from the spec: the library macro \<^verbatim>\<open>CO_LSS_ADDRESS_EQUAL\<close>, equality over
  all four fields.
\<close>

definition CO_LSS_ADDRESS_EQUAL :: "CO_LSS_address_t \<Rightarrow> CO_LSS_address_t \<Rightarrow> bool" where
  "CO_LSS_ADDRESS_EQUAL a b \<longleftrightarrow>
     vendorID a = vendorID b \<and> productCode a = productCode b
     \<and> revisionNumber a = revisionNumber b \<and> serialNumber a = serialNumber b"

text \<open>
  Modelled from the spec: the mode of one identity field in a fastscan, one of SCAN,
  SKIP and MATCH-FIXED.
\<close>

datatype CO_LSSmaster_fs_mode = CO_LSSmaster_FS_SCAN | CO_LSSmaster_FS_SKIP | CO_LSSmaster_FS_MATCH

record configured_node_t =
  addr :: CO_LSS_address_t
  skip_until_us :: u64
  assigned_node_id :: u8

definition MASTER_NODE_ID :: u8 where "MASTER_NODE_ID = 0x01"
definition ID_INICIO_ASIGNACION :: u8 where "ID_INICIO_ASIGNACION = 0x10"
definition MAX_CONFIGURED_NODES :: nat where "MAX_CONFIGURED_NODES = 32"
definition CONFIGURED_NODE_SKIP_MS :: u64 where "CONFIGURED_NODE_SKIP_MS = 30000"
definition RESCAN_INTERVAL_MS :: u64 where "RESCAN_INTERVAL_MS = 5000"
definition DESELECT_DELAY_MS :: u64 where "DESELECT_DELAY_MS = 1000"
definition MAIN_INTERVAL_MS :: int where "MAIN_INTERVAL_MS = 10"

text \<open>
  The file-scope and function-static variables of the engine. \<open>configured_nodes\<close> holds
  the entries \<^verbatim>\<open>configured_nodes[0 .. configured_nodes_count - 1]\<close>; the rest of the
  array is never read.
\<close>

record lss_ctx =
  lssState :: LssState_t
  log_config_id :: bool
  log_config_store :: bool
  fastScan_scan :: "CO_LSSmaster_fs_mode list"
  fastScan_found :: CO_LSS_address_t
  last_found_address :: CO_LSS_address_t
  next_id_to_assign :: u8
  scan_start_us :: u64
  cached_vendor :: u32
  cached_product :: u32
  configured_nodes :: "configured_node_t list"
  last_rescan_us_global :: u64
  fastscan_no_response_count :: int
  current_candidate_id :: u8
  id_attempt_rounds :: int
  last_deselected_us :: u64
  selection_verify_attempts :: int
  verify_attempts :: int
  uploaders_launched :: bool
  nmt_timer :: int

text \<open>
  What one pass through the \<^verbatim>\<open>switch\<close> receives from outside: the successive
  readings of \<^verbatim>\<open>esp_timer_get_time\<close> in that pass, the value returned by each call
  of \<^verbatim>\<open>CO_LSSmaster_IdentifyFastscan\<close> and the address it leaves in
  \<^verbatim>\<open>fastScan.found\<close>, and the values returned by the other LSS services.
  \<open>scan_budget\<close> bounds the number of fastscan calls followed in the pass.
\<close>

record lss_input =
  timer :: "nat \<Rightarrow> u64"
  fastscan_ret :: "nat \<Rightarrow> CO_LSSmaster_return_t"
  fastscan_found :: CO_LSS_address_t
  configureNodeId_ret :: CO_LSSmaster_return_t
  configureStore_ret :: CO_LSSmaster_return_t
  inquire_ret :: CO_LSSmaster_return_t
  inquire_value :: u32
  deselect_ret :: CO_LSSmaster_return_t
  scan_budget :: nat

text \<open>What the engine asks of the LSS master, the NMT master and the uploader.\<close>

datatype lss_action =
    ConfigureNodeId u8
  | ConfigureStore
  | InquireNodeId
  | SwStateDeselect
  | StartFirmwareUpload u8
  | NmtEnterOperational

definition lss_initial :: lss_ctx where
  "lss_initial =
     \<lparr> lssState = LSS_INIT, log_config_id = False, log_config_store = False,
       fastScan_scan = [], fastScan_found = \<lparr>vendorID = 0, productCode = 0, revisionNumber = 0, serialNumber = 0\<rparr>,
       last_found_address = \<lparr>vendorID = 0, productCode = 0, revisionNumber = 0, serialNumber = 0\<rparr>,
       next_id_to_assign = ID_INICIO_ASIGNACION, scan_start_us = 0, cached_vendor = 0, cached_product = 0,
       configured_nodes = [], last_rescan_us_global = 0, fastscan_no_response_count = 0,
       current_candidate_id = 0, id_attempt_rounds = 0, last_deselected_us = 0,
       selection_verify_attempts = 0, verify_attempts = 0, uploaders_launched = False, nmt_timer = 0 \<rparr>"

text \<open>The re-initialisation at the head of the outer \<^verbatim>\<open>while (reset != CO_RESET_APP)\<close> loop.\<close>

definition lss_restart :: "lss_ctx \<Rightarrow> lss_ctx" where
  "lss_restart s =
     s\<lparr>lssState := LSS_INIT, log_config_id := False, log_config_store := False,
       next_id_to_assign := ID_INICIO_ASIGNACION\<rparr>"

text \<open>
  \<^verbatim>\<open>c = (c < 127) ? (uint8_t)(c + 1) : 2; if (c == MASTER_NODE_ID) c++;\<close>, used for
  the candidate in \<^verbatim>\<open>LSS_CONFIG_ID\<close> and for \<^verbatim>\<open>next_id_to_assign\<close> after a store.
\<close>

definition advance_id :: "u8 \<Rightarrow> u8" where
  "advance_id c =
     (let c' = (if c < 127 then c + 1 else 2)
      in if c' = MASTER_NODE_ID then c' + 1 else c')"

text \<open>The linear search for an entry with the given address: the first matching index.\<close>

fun find_configured :: "CO_LSS_address_t \<Rightarrow> configured_node_t list \<Rightarrow> nat option" where
  "find_configured a [] = None"
| "find_configured a (n # ns) =
     (if CO_LSS_ADDRESS_EQUAL (addr n) a then Some 0 else map_option Suc (find_configured a ns))"

text \<open>
  The inner \<^verbatim>\<open>while (ret == CO_LSSmaster_WAIT_SLAVE)\<close> loop of \<^verbatim>\<open>LSS_SCANNING\<close>.
  \<open>steps\<close> is the C \<^verbatim>\<open>int\<close> (it cannot overflow before the safety deadline), and
  \<open>tk\<close> counts the timer readings taken so far in this pass. The result is the value of
  \<^verbatim>\<open>ret\<close> and of \<^verbatim>\<open>steps\<close> at the exit; \<open>None\<close> says that the loop is still
  running when the budget is used up.
\<close>

fun fastscan_loop ::
  "nat \<Rightarrow> lss_input \<Rightarrow> u64 \<Rightarrow> CO_LSSmaster_return_t \<Rightarrow> int \<Rightarrow> int \<Rightarrow> u64 \<Rightarrow> nat
     \<Rightarrow> (CO_LSSmaster_return_t \<times> int \<times> nat) option" where
  "fastscan_loop fuel inp progress_deadline_us ret steps last_step_at_check last_progress_check_us tk =
     (if ret = CO_LSSmaster_WAIT_SLAVE then
        (case fuel of
           0 \<Rightarrow> None
         | Suc fuel' \<Rightarrow>
             let ret' = fastscan_ret inp (nat steps);
                 steps' = steps + 1
             in if steps' AND 0xFF = 0 then
                  (let now = timer inp tk
                   in if now - last_progress_check_us > 500000 then
                        (if steps' = last_step_at_check \<and> ret' = CO_LSSmaster_WAIT_SLAVE
                         then Some (CO_LSSmaster_TIMEOUT, steps', Suc tk)
                         else if now > progress_deadline_us then Some (ret', steps', Suc tk)
                         else fastscan_loop fuel' inp progress_deadline_us ret' steps' steps' now (Suc tk))
                      else if now > progress_deadline_us then Some (ret', steps', Suc tk)
                      else fastscan_loop fuel' inp progress_deadline_us ret' steps'
                             last_step_at_check last_progress_check_us (Suc tk))
                else fastscan_loop fuel' inp progress_deadline_us ret' steps'
                       last_step_at_check last_progress_check_us tk)
      else Some (ret, steps, tk))"

declare fastscan_loop.simps [simp del]

text \<open>The code of \<^verbatim>\<open>LSS_SCANNING\<close> after the loop, from the value of \<^verbatim>\<open>ret\<close> there.\<close>

definition after_fastscan :: "lss_input \<Rightarrow> CO_LSSmaster_return_t \<Rightarrow> nat \<Rightarrow> lss_ctx \<Rightarrow> lss_ctx" where
  "after_fastscan inp ret0 tk s0 =
     (let s1 = s0\<lparr>fastScan_found := fastscan_found inp\<rparr>;
          s2 = (if ret0 = CO_LSSmaster_SCAN_FINISHED then s1\<lparr>fastscan_no_response_count := 0\<rparr>
                else if ret0 = CO_LSSmaster_SCAN_NOACK \<or> ret0 = CO_LSSmaster_TIMEOUT
                then (if fastscan_no_response_count s1 < 10
                      then s1\<lparr>fastscan_no_response_count := fastscan_no_response_count s1 + 1\<rparr>
                      else s1)
                else s1);
          ret = (if ret0 = CO_LSSmaster_WAIT_SLAVE then CO_LSSmaster_TIMEOUT else ret0)
      in if ret = CO_LSSmaster_SCAN_FINISHED then
           (let s3 = s2\<lparr>cached_vendor := vendorID (fastScan_found s2),
                        cached_product := productCode (fastScan_found s2),
                        last_found_address := fastScan_found s2\<rparr>;
                now_check = timer inp (Suc tk)
            in case find_configured (last_found_address s3) (configured_nodes s3) of
                 Some matched_index \<Rightarrow>
                   s3\<lparr>current_candidate_id := assigned_node_id (configured_nodes s3 ! matched_index),
                      configured_nodes := (configured_nodes s3)
                        [matched_index := (configured_nodes s3 ! matched_index)
                           \<lparr>skip_until_us := now_check + CONFIGURED_NODE_SKIP_MS * 1000\<rparr>],
                      selection_verify_attempts := 0,
                      lssState := LSS_CONFIG_ID\<rparr>
               | None \<Rightarrow> s3\<lparr>selection_verify_attempts := 0, lssState := LSS_CONFIG_ID\<rparr>)
         else if ret = CO_LSSmaster_SCAN_NOACK \<or> ret = CO_LSSmaster_TIMEOUT
         then s2\<lparr>lssState := LSS_DONE\<rparr>
         else s2)"

text \<open>One pass through the \<^verbatim>\<open>switch (lssState)\<close> of \<^verbatim>\<open>CO_mainTask\<close>.\<close>

definition lss_tick :: "lss_input \<Rightarrow> lss_ctx \<Rightarrow> (lss_ctx \<times> lss_action list) option" where
  "lss_tick inp s =
     (case lssState s of
        LSS_INIT \<Rightarrow>
          Some (s\<lparr>log_config_id := False, log_config_store := False,
                  fastScan_scan := [CO_LSSmaster_FS_SCAN, CO_LSSmaster_FS_SCAN,
                                    CO_LSSmaster_FS_SCAN, CO_LSSmaster_FS_SCAN],
                  fastScan_found := \<lparr>vendorID = 0, productCode = 0, revisionNumber = 0, serialNumber = 0\<rparr>,
                  current_candidate_id := next_id_to_assign s,
                  id_attempt_rounds := 0,
                  scan_start_us := timer inp 0,
                  lssState := LSS_SCANNING\<rparr>, [])
      | LSS_SCANNING \<Rightarrow>
          (let progress_deadline_us = timer inp 0 + 10000000;
               last_progress_check_us = timer inp 1
           in case fastscan_loop (scan_budget inp) inp progress_deadline_us
                     CO_LSSmaster_WAIT_SLAVE 0 0 last_progress_check_us 2 of
                None \<Rightarrow> None
              | Some (ret, steps, tk) \<Rightarrow> Some (after_fastscan inp ret tk s, []))
      | LSS_CONFIG_ID \<Rightarrow>
          (let s1 = s\<lparr>log_config_id := True\<rparr>;
               idret = configureNodeId_ret inp;
               acts = [ConfigureNodeId (current_candidate_id s1)]
           in if idret = CO_LSSmaster_OK
              then Some (s1\<lparr>lssState := LSS_CONFIG_STORE, log_config_store := False\<rparr>, acts)
              else if idret = CO_LSSmaster_OK_ILLEGAL_ARGUMENT
              then (let s2 = s1\<lparr>current_candidate_id := advance_id (current_candidate_id s1),
                                 id_attempt_rounds := id_attempt_rounds s1 + 1\<rparr>
                    in if id_attempt_rounds s2 > 126 then Some (s2\<lparr>lssState := LSS_DONE\<rparr>, acts)
                       else Some (s2, acts))
              else if idret = CO_LSSmaster_WAIT_SLAVE then Some (s1, acts)
              else Some (s1\<lparr>lssState := LSS_INIT\<rparr>, acts))
      | LSS_CONFIG_STORE \<Rightarrow>
          (let s1 = s\<lparr>log_config_store := True\<rparr>;
               sret = configureStore_ret inp
           in if sret = CO_LSSmaster_OK then
                (let already_in_list = (find_configured (last_found_address s1) (configured_nodes s1) \<noteq> None);
                     inserting = (\<not> already_in_list \<and> length (configured_nodes s1) < MAX_CONFIGURED_NODES);
                     s2 = (if inserting
                           then s1\<lparr>configured_nodes := configured_nodes s1 @
                                     [\<lparr>addr = last_found_address s1,
                                       skip_until_us = timer inp 0 + CONFIGURED_NODE_SKIP_MS * 1000,
                                       assigned_node_id = current_candidate_id s1\<rparr>]\<rparr>
                           else s1);
                     tk = (if inserting then 1 else 0);
                     nxt = advance_id (current_candidate_id s2)
                 in Some (s2\<lparr>next_id_to_assign := nxt,
                             current_candidate_id := nxt,
                             id_attempt_rounds := 0,
                             selection_verify_attempts := 0,
                             last_deselected_us := timer inp tk,
                             lssState := LSS_ACTIVATE\<rparr>, [ConfigureStore, SwStateDeselect]))
              else if sret = CO_LSSmaster_WAIT_SLAVE then Some (s1, [ConfigureStore])
              else Some (s1\<lparr>lssState := LSS_INIT\<rparr>, [ConfigureStore]))
      | LSS_VERIFY_ID \<Rightarrow>
          (let iret = inquire_ret inp
           in if iret = CO_LSSmaster_OK then
                (let reported_id = (ucast (inquire_value inp AND 0xFF) :: u8)
                 in if reported_id = current_candidate_id s
                    then Some (s\<lparr>verify_attempts := 0, lssState := LSS_DESELECT\<rparr>, [InquireNodeId])
                    else (let s1 = s\<lparr>verify_attempts := verify_attempts s + 1\<rparr>
                          in if verify_attempts s1 > 5
                             then Some (s1\<lparr>verify_attempts := 0, lssState := LSS_INIT\<rparr>, [InquireNodeId])
                             else Some (s1, [InquireNodeId])))
              else if iret = CO_LSSmaster_WAIT_SLAVE then Some (s, [InquireNodeId])
              else Some (s\<lparr>lssState := LSS_DESELECT\<rparr>, [InquireNodeId]))
      | LSS_DESELECT \<Rightarrow>
          (let dret = deselect_ret inp
           in if dret = CO_LSSmaster_OK \<or> dret = CO_LSSmaster_INVALID_STATE then
                (let nxt = advance_id (current_candidate_id s)
                 in Some (s\<lparr>next_id_to_assign := nxt,
                            current_candidate_id := nxt,
                            id_attempt_rounds := 0,
                            last_deselected_us := timer inp 0,
                            lssState := LSS_ACTIVATE\<rparr>, [SwStateDeselect]))
              else Some (s\<lparr>lssState := LSS_INIT\<rparr>, [SwStateDeselect]))
      | LSS_ACTIVATE \<Rightarrow>
          (if last_deselected_us s = 0 then Some (s\<lparr>lssState := LSS_INIT\<rparr>, [])
           else (let now = timer inp 0
                 in if now - last_deselected_us s > DESELECT_DELAY_MS * 1000
                    then Some (s\<lparr>last_deselected_us := 0, selection_verify_attempts := 0,
                                 lssState := LSS_INIT\<rparr>, [])
                    else Some (s, [])))
      | LSS_DONE \<Rightarrow>
          (let launching = (\<not> uploaders_launched s \<and> length (configured_nodes s) > 0);
               uploads = (if launching
                          then map StartFirmwareUpload
                                 (filter (\<lambda>node_id. node_id \<noteq> MASTER_NODE_ID)
                                    (map assigned_node_id (configured_nodes s)))
                          else []);
               s1 = (if launching then s\<lparr>uploaders_launched := True\<rparr> else s);
               now_us = timer inp 0;
               nmt_due = (nmt_timer s1 > 1000 div MAIN_INTERVAL_MS);
               s2 = (if nmt_due then s1\<lparr>nmt_timer := 0\<rparr> else s1\<lparr>nmt_timer := nmt_timer s1 + 1\<rparr>);
               nmt = (if nmt_due then [NmtEnterOperational] else [])
           in if now_us - last_rescan_us_global s2 > RESCAN_INTERVAL_MS * 1000
              then Some (s2\<lparr>last_rescan_us_global := now_us, uploaders_launched := False,
                            lssState := LSS_INIT\<rparr>, uploads @ nmt)
              else Some (s2, uploads @ nmt)))"

text \<open>
  The engine's life: passes through the switch, and restarts of the stack after a
  communication reset.
\<close>

datatype lss_event = Tick lss_input | Restart

fun lss_run :: "lss_event list \<Rightarrow> lss_ctx \<Rightarrow> (lss_ctx \<times> lss_action list) option" where
  "lss_run [] s = Some (s, [])"
| "lss_run (Restart # evs) s = lss_run evs (lss_restart s)"
| "lss_run (Tick inp # evs) s =
     (case lss_tick inp s of
        None \<Rightarrow> None
      | Some (s', acts) \<Rightarrow>
          (case lss_run evs s' of
             None \<Rightarrow> None
           | Some (s'', acts') \<Rightarrow> Some (s'', acts @ acts')))"


subsection \<open>Invariant of the engine\<close>

text \<open>
  The registry holds pairwise different addresses, node IDs between 2 and 127 other
  than the master's, and at most \<^verbatim>\<open>MAX_CONFIGURED_NODES\<close> entries.
\<close>

definition registry_ok :: "configured_node_t list \<Rightarrow> bool" where
  "registry_ok ns \<longleftrightarrow>
     distinct (map addr ns)
     \<and> (\<forall>n \<in> set ns. 2 \<le> assigned_node_id n \<and> assigned_node_id n \<le> 127
                       \<and> assigned_node_id n \<noteq> MASTER_NODE_ID)
     \<and> length ns \<le> MAX_CONFIGURED_NODES"

text \<open>
  What holds between passes: the engine is in neither of the two verification states,
  the next ID and (once a scan has begun) the candidate are node IDs between 2 and 127,
  and the registry is in order.
\<close>

definition lss_inv :: "lss_ctx \<Rightarrow> bool" where
  "lss_inv s \<longleftrightarrow>
     lssState s \<noteq> LSS_VERIFY_ID \<and> lssState s \<noteq> LSS_DESELECT
     \<and> 2 \<le> next_id_to_assign s \<and> next_id_to_assign s \<le> 127
     \<and> (lssState s = LSS_INIT \<or> (2 \<le> current_candidate_id s \<and> current_candidate_id s \<le> 127))
     \<and> registry_ok (configured_nodes s)"

subsection \<open>Scenario data\<close>

definition lss_state_after :: "lss_event list \<Rightarrow> lss_ctx option" where
  "lss_state_after evs = map_option fst (lss_run evs lss_initial)"

definition lss_actions_of :: "lss_event list \<Rightarrow> lss_ctx \<Rightarrow> lss_action list option" where
  "lss_actions_of evs s = map_option snd (lss_run evs s)"

text \<open>The IDs for which a configure-node-ID request went out.\<close>

fun configured_ids :: "lss_action list \<Rightarrow> u8 list" where
  "configured_ids [] = []"
| "configured_ids (ConfigureNodeId c # acts) = c # configured_ids acts"
| "configured_ids (other # acts) = configured_ids acts"

text \<open>A pass in which the bus is silent and every service times out.\<close>

definition idle_input :: lss_input where
  "idle_input =
     \<lparr> timer = (\<lambda>n. 0), fastscan_ret = (\<lambda>n. CO_LSSmaster_SCAN_NOACK),
       fastscan_found = \<lparr>vendorID = 0, productCode = 0, revisionNumber = 0, serialNumber = 0\<rparr>,
       configureNodeId_ret = CO_LSSmaster_TIMEOUT, configureStore_ret = CO_LSSmaster_TIMEOUT,
       inquire_ret = CO_LSSmaster_WAIT_SLAVE, inquire_value = 0,
       deselect_ret = CO_LSSmaster_TIMEOUT, scan_budget = Suc 0 \<rparr>"

definition node_A :: CO_LSS_address_t where
  "node_A = \<lparr>vendorID = 0x000000AA, productCode = 0x00000001, revisionNumber = 0x00000000,
             serialNumber = 0xDEADBEEF\<rparr>"

definition answered :: "nat \<Rightarrow> CO_LSSmaster_return_t" where
  "answered n = CO_LSSmaster_SCAN_FINISHED"

definition found_A_input :: lss_input where
  "found_A_input = idle_input\<lparr>fastscan_ret := answered, fastscan_found := node_A\<rparr>"

definition id_ok_input :: lss_input where
  "id_ok_input = idle_input\<lparr>configureNodeId_ret := CO_LSSmaster_OK\<rparr>"

definition id_rejected_input :: lss_input where
  "id_rejected_input = idle_input\<lparr>configureNodeId_ret := CO_LSSmaster_OK_ILLEGAL_ARGUMENT\<rparr>"

definition store_ok_input :: lss_input where
  "store_ok_input = idle_input\<lparr>configureStore_ret := CO_LSSmaster_OK\<rparr>"

text \<open>A bare node is found, accepts the first candidate and stores it.\<close>

definition commission_A :: "lss_event list" where
  "commission_A = [Tick idle_input, Tick found_A_input, Tick id_ok_input, Tick store_ok_input]"

text \<open>The same, but the node rejects the first candidate and accepts the second.\<close>

definition commission_A_second_try :: "lss_event list" where
  "commission_A_second_try =
     [Tick idle_input, Tick found_A_input, Tick id_rejected_input, Tick id_ok_input, Tick store_ok_input]"

definition commissioned_A :: lss_ctx where
  "commissioned_A =
     lss_initial
       \<lparr>lssState := LSS_ACTIVATE, log_config_id := True, log_config_store := True,
        fastScan_scan := [CO_LSSmaster_FS_SCAN, CO_LSSmaster_FS_SCAN, CO_LSSmaster_FS_SCAN, CO_LSSmaster_FS_SCAN],
        fastScan_found := node_A, last_found_address := node_A,
        next_id_to_assign := 0x11, cached_vendor := 0xAA, cached_product := 1,
        configured_nodes := [\<lparr>addr = node_A, skip_until_us = 30000000, assigned_node_id = 0x10\<rparr>],
        current_candidate_id := 0x11\<rparr>"

definition commissioned_A_second_try :: lss_ctx where
  "commissioned_A_second_try =
     commissioned_A
       \<lparr>next_id_to_assign := 0x12,
        configured_nodes := [\<lparr>addr = node_A, skip_until_us = 30000000, assigned_node_id = 0x11\<rparr>],
        current_candidate_id := 0x12\<rparr>"

definition configuring :: lss_ctx where
  "configuring = lss_initial\<lparr>lssState := LSS_CONFIG_ID, current_candidate_id := 0x10\<rparr>"

definition storing :: lss_ctx where
  "storing = lss_initial\<lparr>lssState := LSS_CONFIG_STORE, current_candidate_id := 0x10\<rparr>"

definition stored :: lss_ctx where
  "stored =
     storing\<lparr>log_config_store := True,
             configured_nodes := [\<lparr>addr = \<lparr>vendorID = 0, productCode = 0, revisionNumber = 0, serialNumber = 0\<rparr>,
                                   skip_until_us = 30000000, assigned_node_id = 0x10\<rparr>],
             next_id_to_assign := 0x11, current_candidate_id := 0x11, lssState := LSS_ACTIVATE\<rparr>"





definition verifying :: lss_ctx where
  "verifying = lss_initial\<lparr>lssState := LSS_VERIFY_ID\<rparr>"

section \<open>The CRC is CRC-16/CCITT-FALSE and does not depend on chunk boundaries\<close>

lemma top_bit_test: "(crc :: u16) AND 0x8000 \<noteq> 0 \<longleftrightarrow> bit crc 15"
proof -
  have "(0x8000 :: u16) = 2 ^ 15" by simp
  then show ?thesis by (simp only: and_exp_eq_0_iff_not_bit) simp
qed

text \<open>The shift is linear over xor for an operand whose top bit is clear.\<close>

lemma crc_shift_xor:
  "\<not> bit (d :: u16) 15 \<Longrightarrow> crc_shift (c XOR d) = crc_shift c XOR push_bit 1 d"
  by (auto simp: crc_shift_def top_bit_test bit_simps ac_simps)

lemma bit_top16: "bit top16 n \<longleftrightarrow> n = 15"
  unfolding top16_def by (auto simp add: bit_simps simp del: One_nat_def push_bit_of_1)

lemma top16_shift: "push_bit 1 top16 = 0"
  by (rule bit_eqI) (auto simp add: bit_simps bit_top16 simp del: One_nat_def)

lemma feed_bit_as_shift:
  "crc_feed_bit 0x1021 c x = crc_shift (c XOR (if x then top16 else 0))"
  by (auto simp add: crc_shift_def crc_feed_bit_def top_bit_test bit_simps bit_top16 top16_shift
      simp del: One_nat_def)

text \<open>
  One shift of the register with the byte xored into its upper half consumes the top
  bit of what is left of the byte and moves the rest up by one.
\<close>

lemma crc_byte_step:
  assumes "k < 8"
  shows "crc_shift (c XOR push_bit (8 + k) (ucast (b :: u8))) =
         crc_feed_bit 0x1021 c (bit b (7 - k)) XOR push_bit (9 + k) (ucast b)"
proof -
  let ?d = "push_bit (8 + k) (ucast b) :: u16"
  let ?t = "(if bit b (7 - k) then top16 else 0) :: u16"
  let ?r = "take_bit 15 ?d"
  have split: "?d = ?t XOR ?r"
  proof (rule bit_eqI)
    fix n assume "possible_bit TYPE(u16) n"
    then have n: "n < 16" by simp
    show "bit ?d n = bit (?t XOR ?r) n"
    proof (cases "n = 15")
      case True
      with assms show ?thesis by (auto simp add: bit_simps bit_top16)
    next
      case False
      with n assms show ?thesis by (auto simp add: bit_simps bit_top16)
    qed
  qed
  have r15: "\<not> bit ?r 15" by (simp add: bit_simps)
  have "crc_shift (c XOR ?d) = crc_shift ((c XOR ?t) XOR ?r)"
    by (subst split) (simp add: ac_simps)
  also have "\<dots> = crc_shift (c XOR ?t) XOR push_bit 1 ?r"
    by (rule crc_shift_xor [OF r15])
  also have "push_bit 1 ?r = push_bit (9 + k) (ucast b)"
  proof (rule bit_eqI)
    fix n assume "possible_bit TYPE(u16) n"
    then have n: "n < 16" by simp
    with assms show "bit (push_bit 1 ?r) n = bit (push_bit (9 + k) (ucast b) :: u16) n"
      by (auto simp add: bit_simps simp del: One_nat_def)
  qed
  finally show ?thesis by (simp add: feed_bit_as_shift)
qed

lemma crc_byte_bitwise: "crc_byte c b = foldl (crc_feed_bit 0x1021) c (bits_msb_first b)"
proof -
  have z: "push_bit 16 (ucast b :: u16) = 0" by (simp add: bit_eq_iff bit_simps)
  show ?thesis
    unfolding crc_byte_def bits_msb_first_def
    using crc_byte_step [of 0 _ b] crc_byte_step [of 1 _ b] crc_byte_step [of 2 _ b]
      crc_byte_step [of 3 _ b] crc_byte_step [of 4 _ b] crc_byte_step [of 5 _ b]
      crc_byte_step [of 6 _ b] crc_byte_step [of 7 _ b] z
    by (simp add: numeral_eq_Suc)
qed

lemma crc_update_bitwise:
  "crc_update c bs = foldl (crc_feed_bit 0x1021) c (concat (map bits_msb_first bs))"
  by (induction bs arbitrary: c) (simp_all add: crc_byte_bitwise)

lemma crc_update_append: "crc_update c (a @ b) = crc_update (crc_update c a) b"
  by (induction a arbitrary: c) simp_all

lemma crc_read_loop_eq: "crc_read_loop crc total_n rest = (crc_update crc rest, total_n + length rest)"
proof (induction crc total_n rest rule: crc_read_loop.induct)
  case (1 crc total_n rest)
  show ?case
  proof (cases "rest = []")
    case True
    then show ?thesis by (subst crc_read_loop.simps) simp
  next
    case False
    then have pos: "0 < length (take 1024 rest)" by simp
    have "crc_read_loop crc total_n rest =
          crc_read_loop (crc_update crc (take 1024 rest)) (total_n + length (take 1024 rest)) (drop 1024 rest)"
      using pos by (subst crc_read_loop.simps) (simp add: Let_def)
    also have "\<dots> = (crc_update (crc_update crc (take 1024 rest)) (drop 1024 rest),
                     total_n + length (take 1024 rest) + length (drop 1024 rest))"
      using pos by (intro "1.IH") simp_all
    also have "crc_update (crc_update crc (take 1024 rest)) (drop 1024 rest) = crc_update crc rest"
      by (simp add: crc_update_append [symmetric])
    finally show ?thesis by simp
  qed
qed

text \<open>The check value of CRC-16/CCITT-FALSE: the CRC of the ASCII digits 1 to 9.\<close>

lemma crc16_check_value: "fw_master_crc16 check_bytes = 0x29B1"
  by code_simp

text \<open>
  C2. \<^verbatim>\<open>fw_master_crc16\<close> is CRC-16/CCITT-FALSE (polynomial \<open>0x1021\<close>, initial value
  \<open>0xFFFF\<close>, most significant bit first, no final xor) on every byte sequence; the CRC
  of \<open>a @ b\<close> is the update from the CRC state after \<open>a\<close> over the bytes of \<open>b\<close>; and
  \<^verbatim>\<open>fw_master_crc_from_file\<close>, reading through its 1024-byte buffer, returns the
  CRC that \<^verbatim>\<open>fw_master_crc16\<close> gives on the whole contents (and fails on an empty
  file).
\<close>

theorem fw_master_crc16_is_ccitt_false:
  "fw_master_crc16 bs = crc16_ccitt_false bs
   \<and> crc_update crc (a @ b) = crc_update (crc_update crc a) b
   \<and> fw_master_crc16 (a @ b) = crc_update (fw_master_crc16 a) b
   \<and> (fs env (firmwarePath plan) = Some f \<longrightarrow>
        fw_master_crc_from_file env plan =
          (if contents f = [] then None
           else Some (fw_master_crc16 (contents f), length (contents f))))"
  by (simp add: fw_master_crc16_def crc16_ccitt_false_def crc_update_bitwise [symmetric]
      crc_update_append fw_master_crc_from_file_def crc_read_loop_eq)


theorem fw_master_crc16_is_ccitt_false_witness:
  "fs (quiet_env (one_file_fs (regular_file check_bytes))) (firmwarePath (plan_for ''/spiffs/slave.bin'' 256 0 1))
     = Some (regular_file check_bytes)
   \<and> fw_master_crc_from_file (quiet_env (one_file_fs (regular_file check_bytes)))
         (plan_for ''/spiffs/slave.bin'' 256 0 1)
       = Some (crc16_ccitt_false check_bytes, 9)"
  using fw_master_crc16_is_ccitt_false
    [where env = "quiet_env (one_file_fs (regular_file check_bytes))"
       and plan = "plan_for ''/spiffs/slave.bin'' 256 0 1"
       and f = "regular_file check_bytes" and bs = check_bytes]
  by (simp add: quiet_env_def one_file_fs_def regular_file_def check_bytes_def)


section \<open>Streaming the image in chunks\<close>

lemma chunk_index_less: "0 < c \<Longrightarrow> k < chunk_count c data \<longleftrightarrow> k * c < length data"
proof -
  assume c: "0 < c"
  have "k < chunk_count c data \<longleftrightarrow> Suc k \<le> (length data + c - 1) div c"
    by (simp add: chunk_count_def Suc_le_eq)
  also have "\<dots> \<longleftrightarrow> Suc k * c \<le> length data + c - 1"
    using c by (rule less_eq_div_iff_mult_less_eq)
  also have "\<dots> \<longleftrightarrow> k * c < length data"
    using c by auto
  finally show ?thesis .
qed

lemma send_all_nonempty: "\<not> fst (send_all sendc c data is) \<Longrightarrow> snd (send_all sendc c data is) \<noteq> []"
  by (induction "is") (auto split: prod.splits)

text \<open>The read-and-send loop of the file streamer sends the chunks from index \<open>k\<close> on.\<close>

lemma stream_file_loop_send_all:
  assumes c: "0 < c"
  shows "stream_file_loop sendc c (drop (k * c) data) (min (k * c) (length data)) k =
         (case send_all sendc c data [k ..< chunk_count c data] of
            (ok, calls) \<Rightarrow>
              (ok, (if ok then length data else (length calls - 1 + k) * c), calls))"
proof (induction "chunk_count c data - k" arbitrary: k)
  case 0
  then have "\<not> k < chunk_count c data" by simp
  then have "\<not> k * c < length data" using c by (simp add: chunk_index_less)
  then show ?case
    using 0 by (subst stream_file_loop.simps) (simp add: Let_def)
next
  case (Suc m)
  then have kN: "k < chunk_count c data" by simp
  then have kl: "k * c < length data" using c by (simp add: chunk_index_less)
  have upt: "[k ..< chunk_count c data] = k # [Suc k ..< chunk_count c data]"
    using kN by (simp add: upt_conv_Cons)
  have nonempty: "0 < length (take c (drop (k * c) data))" using c kl by simp
  have next_off: "min (k * c) (length data) + length (take c (drop (k * c) data))
                  = min (Suc k * c) (length data)"
    using kl by (auto simp add: min_def)
  have next_rest: "drop c (drop (k * c) data) = drop (Suc k * c) data"
    by (simp add: add.commute)
  have off: "min (k * c) (length data) = k * c" using kl by simp
  have IH: "stream_file_loop sendc c (drop (Suc k * c) data) (min (Suc k * c) (length data)) (Suc k) =
         (case send_all sendc c data [Suc k ..< chunk_count c data] of
            (ok, calls) \<Rightarrow>
              (ok, (if ok then length data else (length calls - 1 + Suc k) * c), calls))"
    using Suc by (intro Suc.hyps(1)) simp
  show ?case
  proof (cases "chunk_accepted sendc c data k")
    case False
    then show ?thesis
      using nonempty off
      by (subst stream_file_loop.simps) (simp add: Let_def upt chunk_accepted_def chunk_call_def)
  next
    case True
    have step: "stream_file_loop sendc c (drop (k * c) data) (min (k * c) (length data)) k =
          (case stream_file_loop sendc c (drop (Suc k * c) data) (min (Suc k * c) (length data)) (Suc k) of
             (ok, off, calls) \<Rightarrow> (ok, off, chunk_call c data k # calls))"
      using nonempty True next_off next_rest off
      by (subst stream_file_loop.simps) (simp add: Let_def chunk_accepted_def chunk_call_def)
    show ?thesis
      unfolding step IH upt
      using True send_all_nonempty [of sendc c data "[Suc k ..< chunk_count c data]"]
      by (auto split: prod.splits simp add: neq_Nil_conv algebra_simps)
  qed
qed


subsection \<open>What sending in order means\<close>







lemma stream_chunk_size_pos: "0 < stream_chunk_size plan"
  by (simp add: stream_chunk_size_def unat_gt_0)



lemma fw_master_stream_file_send_all:
  assumes "fs env (firmwarePath plan) = Some f" and "malloc_ok env (stream_chunk_size plan)"
  shows "fw_master_stream_file env plan (length (contents f)) =
         send_all (send_chunk env) (stream_chunk_size plan) (contents f)
           [0 ..< chunk_count (stream_chunk_size plan) (contents f)]"
  using assms stream_file_loop_send_all [OF stream_chunk_size_pos, of "send_chunk env" plan 0 "contents f"]
  by (simp add: fw_master_stream_file_def split: prod.splits)


text \<open>With a chunk size of zero the in-memory streamer never returns while the link accepts.\<close>

lemma stream_payload_zero_chunk_stuck:
  "offset < length payload \<Longrightarrow> (\<forall>k chunk off. sendc k chunk off) \<Longrightarrow>
   stream_payload_loop fuel sendc 0 payload offset k = None"
  by (induction fuel arbitrary: k) (subst stream_payload_loop.simps, simp)+


subsection \<open>A refused chunk ends the session\<close>













section \<open>No image, no traffic\<close>

text \<open>
  C10. When the firmware file cannot be opened, or \<^verbatim>\<open>ftell\<close> reports a size that
  is zero or negative, both entry points of both masters return false and have invoked
  neither a query nor a send operation.
\<close>

theorem no_operation_without_image:
  assumes "case fs env (firmwarePath plan) of None \<Rightarrow> True | Some f \<Rightarrow> tell f \<le> 0"
  shows "esp_run_upload_if_needed env plan = (False, [])
         \<and> esp_run_upload_session env plan = (False, [])
         \<and> rpi_run_upload_if_needed fuel env plan = Some (False, [])
         \<and> rpi_run_upload_session fuel env plan = Some (False, [])"
proof -
  from assms have "fw_master_file_info env plan = None"
    by (auto simp add: fw_master_file_info_def split: option.splits)
  moreover from assms have "fw_master_load_payload env plan = None"
    by (auto simp add: fw_master_load_payload_def split: option.splits)
  ultimately show ?thesis
    by (simp add: esp_run_upload_if_needed_def esp_run_upload_session_def
        rpi_run_upload_if_needed_def rpi_run_upload_session_def)
qed

theorem no_operation_without_image_witness:
  "esp_run_upload_if_needed (quiet_env no_files) (plan_for ''/spiffs/slave.bin'' 256 0 1) = (False, [])
   \<and> rpi_run_upload_if_needed 0 (quiet_env no_files) (plan_for ''/spiffs/slave.bin'' 256 0 1) = Some (False, [])
   \<and> tell (regular_file []) \<le> 0
   \<and> esp_run_upload_session (quiet_env (one_file_fs (regular_file []))) (plan_for ''/spiffs/slave.bin'' 256 0 1)
       = (False, [])
   \<and> rpi_run_upload_session 0 (quiet_env (one_file_fs (regular_file []))) (plan_for ''/spiffs/slave.bin'' 256 0 1)
       = Some (False, [])"
  using no_operation_without_image [of "quiet_env no_files" "plan_for ''/spiffs/slave.bin'' 256 0 1" 0]
    no_operation_without_image
      [of "quiet_env (one_file_fs (regular_file []))" "plan_for ''/spiffs/slave.bin'' 256 0 1" 0]
  by (simp add: quiet_env_def no_files_def one_file_fs_def regular_file_def)

section \<open>The pre-check before an upload\<close>

text \<open>
  The ESP32 master skips the transfer exactly when both queries succeed and both values
  equal the local ones; otherwise it runs the sequence, which begins with the metadata.
\<close>

lemma esp_run_upload_if_needed_precheck:
  assumes "fw_master_file_info env plan = Some fileSize" and "esp_local_crc env plan = Some localCrc"
  shows "esp_run_upload_if_needed env plan =
         (if query_slave_crc env = Some localCrc \<and> query_slave_version env = Some (firmwareVersion plan)
          then (True, [QuerySlaveCrc, QuerySlaveVersion])
          else (fst (esp_upload_sequence env plan fileSize localCrc),
                QuerySlaveCrc # QuerySlaveVersion # snd (esp_upload_sequence env plan fileSize localCrc)))"
  using assms by (auto simp add: esp_run_upload_if_needed_def Let_def split: prod.splits)

lemma esp_upload_sequence_starts_with_metadata:
  "hd (snd (esp_upload_sequence env plan fileSize crc)) = SendMetadata fileSize crc"
  by (simp add: esp_upload_sequence_def split: prod.splits)

text \<open>The Raspberry Pi master asks for the CRC only, and skips whenever that matches.\<close>

lemma rpi_run_upload_if_needed_precheck:
  assumes "fw_master_load_payload env plan = Some payload"
  shows "rpi_run_upload_if_needed fuel env plan =
         (if query_slave_crc env = Some (rpi_local_crc plan payload) then Some (True, [QuerySlaveCrc])
          else map_option (\<lambda>(ok, calls). (ok, QuerySlaveCrc # calls))
                 (rpi_upload_sequence fuel env plan payload (rpi_local_crc plan payload)))"
  using assms by (auto simp add: rpi_run_upload_if_needed_def Let_def split: option.splits)

text \<open>
  C1 at a slave that runs an image with the local CRC \<open>0x1234\<close> but version 7, while the
  plan carries version 8: the Raspberry Pi master returns true after the CRC query
  alone, without the version query and without any transfer.
\<close>

theorem rpi_skips_upload_on_crc_match_alone:
  "rpi_run_upload_if_needed 0
     ((quiet_env (one_file_fs (regular_file check_bytes)))
        \<lparr>query_slave_crc := Some 0x1234, query_slave_version := Some 7\<rparr>)
     (plan_for ''firmware.bin'' 256 0x1234 8) = Some (True, [QuerySlaveCrc])"
  by (simp add: rpi_run_upload_if_needed_def fw_master_load_payload_def rpi_local_crc_def
      quiet_env_def one_file_fs_def regular_file_def check_bytes_def plan_for_def)

text \<open>On the same input the ESP32 master uploads the image.\<close>

lemma esp_uploads_on_version_mismatch:
  "esp_run_upload_if_needed
     ((quiet_env (one_file_fs (regular_file check_bytes)))
        \<lparr>query_slave_crc := Some 0x1234, query_slave_version := Some 7\<rparr>)
     (plan_for ''firmware.bin'' 256 0x1234 8) =
   (True, [QuerySlaveCrc, QuerySlaveVersion, SendMetadata 9 0x1234, SendStartCommand,
           SendChunk check_bytes 0, SendFinalizeRequest 0x1234])"
proof -
  define E where "E = (quiet_env (one_file_fs (regular_file check_bytes)))
        \<lparr>query_slave_crc := Some 0x1234, query_slave_version := Some 7\<rparr>"
  define P where "P = plan_for ''firmware.bin'' 256 0x1234 8"
  have h1: "fs E (firmwarePath P) = Some (regular_file check_bytes)"
    by (simp add: E_def quiet_env_def one_file_fs_def)
  have h2: "malloc_ok E (stream_chunk_size P)" by (simp add: E_def quiet_env_def)
  have len: "length (contents (regular_file check_bytes)) = 9"
    by (simp add: regular_file_def check_bytes_def)
  have c: "stream_chunk_size P = 256" by (simp add: P_def plan_for_def stream_chunk_size_def)
  have n: "chunk_count 256 (contents (regular_file check_bytes)) = 1"
    by (simp add: chunk_count_def len)
  have "fw_master_stream_file E P 9 =
        send_all (send_chunk E) 256 (contents (regular_file check_bytes)) [0 ..< 1]"
    using fw_master_stream_file_send_all [OF h1 h2] by (simp add: len c n)
  then have stream: "fw_master_stream_file E P 9 = (True, [SendChunk check_bytes 0])"
    by (simp add: chunk_accepted_def chunk_call_def E_def quiet_env_def regular_file_def check_bytes_def)
  have info: "fw_master_file_info E P = Some 9"
    using h1 by (simp add: fw_master_file_info_def regular_file_def check_bytes_def)
  have crc: "esp_local_crc E P = Some 0x1234" by (simp add: esp_local_crc_def P_def plan_for_def)
  have seq: "esp_upload_sequence E P 9 0x1234 =
             (True, [SendMetadata 9 0x1234, SendStartCommand, SendChunk check_bytes 0, SendFinalizeRequest 0x1234])"
    by (simp add: esp_upload_sequence_def stream) (simp add: E_def quiet_env_def)
  have "esp_run_upload_if_needed E P =
        (True, [QuerySlaveCrc, QuerySlaveVersion, SendMetadata 9 0x1234, SendStartCommand,
           SendChunk check_bytes 0, SendFinalizeRequest 0x1234])"
    unfolding esp_run_upload_if_needed_precheck [OF info crc] seq
    by (simp add: E_def P_def plan_for_def)
  then show ?thesis unfolding E_def P_def .
qed



section \<open>Segmented SDO download\<close>

lemma mask_FF_16: "(0xFF :: u16) = mask 8"
  by (simp add: mask_eq_exp_minus_1)

lemma index_lo_ucast: "index_lo index = ucast index"
  unfolding index_lo_def mask_FF_16 by (rule bit_eqI) (auto simp add: bit_simps)

lemma index_hi_ucast: "index_hi index = ucast (drop_bit 8 index)"
  unfolding index_hi_def mask_FF_16 by (rule bit_eqI) (auto simp add: bit_simps)

lemma len_byte_ucast:
  "sh \<le> 24 \<Longrightarrow> len_byte len sh = ucast (drop_bit sh (of_nat len :: u32))"
proof -
  assume sh: "sh \<le> 24"
  have "len_byte len sh = of_nat (take_bit 8 (drop_bit sh len))"
    by (simp add: len_byte_def take_bit_eq_mod drop_bit_eq_div)
  also have "\<dots> = ucast (drop_bit sh (of_nat len :: u32))"
    using sh by (intro bit_eqI) (auto simp add: bit_simps)
  finally show ?thesis .
qed

lemma initiate_frame_spec:
  "initiate_frame index subIndex (length data) = hd (spec_segmented_download index subIndex data)"
  by (simp add: initiate_frame_def spec_segmented_download_def index_lo_ucast index_hi_ucast len_byte_ucast)

text \<open>The command byte of a segment, for a toggle bit, up to six unused bytes and a last flag.\<close>

lemma segment_command_byte:
  assumes "t < 2" and "m \<le> 6" and "l < 2"
  shows "push_bit 4 (of_nat t) OR push_bit 1 (of_nat m) OR (of_nat l) = (of_nat (t * 16 + m * 2 + l) :: u8)"
proof -
  from assms have "t \<in> {0, 1}" "m \<in> {0, 1, 2, 3, 4, 5, 6}" "l \<in> {0, 1}" by auto
  then show ?thesis by auto
qed

lemma segment_index_less: "i < (length data + 6) div 7 \<longleftrightarrow> 7 * i < length data"
  by auto

lemma toggle_flip: "(of_nat (i mod 2) :: u8) XOR 1 = of_nat (Suc i mod 2)"
proof (cases "even i")
  case True
  then have "i mod 2 = 0" "Suc i mod 2 = 1" by (auto simp add: mod_Suc)
  then show ?thesis by simp
next
  case False
  then have "i mod 2 = 1" "Suc i mod 2 = 0" by (auto simp add: mod_Suc odd_iff_mod_2_eq_one)
  then show ?thesis by simp
qed

text \<open>The frame the loop builds for segment \<open>i\<close> is the one the specification describes.\<close>

lemma segment_frame_spec:
  assumes "7 * i < length data"
  shows "segment_frame (of_nat (i mod 2)) data (7 * i) = spec_segment data i"
proof -
  define remaining where "remaining = length data - 7 * i"
  define segLen where "segLen = min 7 remaining"
  define l :: nat where "l = (if remaining \<le> 7 then 1 else 0)"
  have pos: "0 < remaining" using assms by (simp add: remaining_def)
  have seg: "(if remaining > 7 then 7 else remaining) = segLen" by (simp add: segLen_def min_def)
  have m: "7 - segLen \<le> 6" using pos by (auto simp add: segLen_def min_def)
  have lastbit: "(if remaining \<le> 7 then 1 else 0 :: u8) = of_nat l" by (simp add: l_def)
  have cmd: "push_bit 4 (of_nat (i mod 2)) OR push_bit 1 (of_nat (7 - segLen)) OR (of_nat l)
             = (of_nat (i mod 2 * 16 + (7 - segLen) * 2 + l) :: u8)"
    by (rule segment_command_byte) (use m in \<open>simp_all add: l_def\<close>)
  have len: "length (take segLen (drop (7 * i) data)) = segLen"
    by (simp add: segLen_def remaining_def)
  show ?thesis
    unfolding segment_frame_def spec_segment_def Let_def pad_to_def
    unfolding remaining_def [symmetric] seg segLen_def [symmetric] lastbit len
    using cmd by (simp add: l_def)
qed

lemma segment_loop_done:
  "\<not> offset < length data \<Longrightarrow> segment_loop bus st data offset toggle k = (True, st, [])"
  by (subst segment_loop.simps) simp

text \<open>One round of the segment loop, at segment \<open>i\<close>.\<close>

lemma segment_loop_step:
  assumes "7 * i < length data"
  shows "segment_loop bus st data (7 * i) (of_nat (i mod 2)) (Suc i) =
         (case bus (Suc i) of
            SendFailed \<Rightarrow> (False, st, [])
          | SelectFailed \<Rightarrow> (False, st, [spec_segment data i])
          | TimedOut \<Rightarrow> (False, st\<lparr>g_last_abort_code := SDO_ABORT_TIMEOUT\<rparr>, [spec_segment data i])
          | Reply response \<Rightarrow>
              if \<not> length response > 0
              then (False, st\<lparr>g_last_abort_code := SDO_ABORT_TIMEOUT\<rparr>, [spec_segment data i])
              else if byte_at response 0 AND 0xE0 = SDO_ABORT
              then (False, st\<lparr>g_last_abort_code := parse_abort_code response\<rparr>, [spec_segment data i])
              else if drop_bit 4 (byte_at response 0) AND 0x01 \<noteq> of_nat (i mod 2)
              then (False, st\<lparr>g_last_abort_code := SDO_ABORT_TOGGLE_ERROR\<rparr>, [spec_segment data i])
              else (case segment_loop bus st data (min (7 * Suc i) (length data))
                           (of_nat (Suc i mod 2)) (Suc (Suc i)) of
                      (ok, st', frames) \<Rightarrow> (ok, st', spec_segment data i # frames)))"
proof -
  have off: "7 * i + (if 7 < length data - 7 * i then 7 else length data - 7 * i)
             = min (7 * Suc i) (length data)"
    using assms by (auto simp add: min_def)
  show ?thesis
    by (subst segment_loop.simps)
      (simp only: assms if_True Let_def off segment_frame_spec [OF assms] toggle_flip)
qed

text \<open>
  Whatever the bus does, the segments that go out are an initial part of the specified
  sequence, and all of it when the loop succeeds.
\<close>

lemma segment_loop_prefix:
  "case segment_loop bus st data (min (7 * i) (length data)) (of_nat (i mod 2)) (Suc i) of
     (ok, st', frames) \<Rightarrow>
       prefix frames (map (spec_segment data) [i ..< (length data + 6) div 7])
       \<and> (ok \<longrightarrow> frames = map (spec_segment data) [i ..< (length data + 6) div 7])"
proof (induction "(length data + 6) div 7 - i" arbitrary: i)
  case 0
  then have "\<not> 7 * i < length data" by auto
  then show ?case using 0 by (simp add: segment_loop_done)
next
  case (Suc m)
  then have lt: "7 * i < length data" by auto
  then have iN: "i < (length data + 6) div 7" by auto
  have upt: "[i ..< (length data + 6) div 7] = i # [Suc i ..< (length data + 6) div 7]"
    using iN by (simp add: upt_conv_Cons)
  have off: "min (7 * i) (length data) = 7 * i" using lt by simp
  have IH: "case segment_loop bus st data (min (7 * Suc i) (length data)) (of_nat (Suc i mod 2)) (Suc (Suc i)) of
     (ok, st', frames) \<Rightarrow>
       prefix frames (map (spec_segment data) [Suc i ..< (length data + 6) div 7])
       \<and> (ok \<longrightarrow> frames = map (spec_segment data) [Suc i ..< (length data + 6) div 7])"
    using Suc by (intro Suc.hyps(1)) simp
  show ?case
    unfolding off segment_loop_step [OF lt] upt
    using IH by (auto split: sdo_event.splits prod.splits)
qed

text \<open>With a server that acknowledges everything the whole sequence goes out.\<close>

lemma acking_server_echoes:
  "byte_at [0x20 OR push_bit 4 (of_nat (i mod 2))] 0 AND 0xE0 \<noteq> SDO_ABORT
   \<and> drop_bit 4 (byte_at [0x20 OR push_bit 4 (of_nat (i mod 2)) :: u8] 0) AND 0x01 = of_nat (i mod 2)"
proof (cases "even i")
  case True
  then have "i mod 2 = 0" by auto
  then show ?thesis by (simp add: byte_at_def SDO_ABORT_def)
next
  case False
  then have "i mod 2 = 1" by (auto simp add: odd_iff_mod_2_eq_one)
  then show ?thesis by (simp add: byte_at_def SDO_ABORT_def)
qed

lemma segment_loop_acked:
  "segment_loop acking_server st data (min (7 * i) (length data)) (of_nat (i mod 2)) (Suc i) =
   (True, st, map (spec_segment data) [i ..< (length data + 6) div 7])"
proof (induction "(length data + 6) div 7 - i" arbitrary: i)
  case 0
  then have "\<not> 7 * i < length data" by auto
  then show ?case using 0 by (simp add: segment_loop_done)
next
  case (Suc m)
  then have lt: "7 * i < length data" by auto
  then have iN: "i < (length data + 6) div 7" by auto
  have upt: "[i ..< (length data + 6) div 7] = i # [Suc i ..< (length data + 6) div 7]"
    using iN by (simp add: upt_conv_Cons)
  have off: "min (7 * i) (length data) = 7 * i" using lt by simp
  have IH: "segment_loop acking_server st data (min (7 * Suc i) (length data)) (of_nat (Suc i mod 2)) (Suc (Suc i)) =
       (True, st, map (spec_segment data) [Suc i ..< (length data + 6) div 7])"
    using Suc by (intro Suc.hyps(1)) simp
  have srv: "acking_server (Suc i) = Reply [0x20 OR push_bit 4 (of_nat (i mod 2))]"
    by (simp add: acking_server_def)
  show ?case
    unfolding off segment_loop_step [OF lt] upt srv IH
    using acking_server_echoes [of i] by simp
qed

text \<open>
  Acknowledged segments up to \<open>j\<close>, then an answer with the wrong toggle bit: the loop
  stops there with the toggle error.
\<close>

lemma segment_loop_mismatch:
  assumes "\<forall>n. i \<le> n \<and> n < j \<longrightarrow> (\<exists>r. bus (Suc n) = Reply r \<and> echoes_toggle (of_nat (n mod 2)) r)"
    and "bus (Suc j) = Reply r" and "toggle_mismatch (of_nat (j mod 2)) r"
    and "7 * j < length data" and "i \<le> j"
  shows "segment_loop bus st data (7 * i) (of_nat (i mod 2)) (Suc i) =
         (False, st\<lparr>g_last_abort_code := SDO_ABORT_TOGGLE_ERROR\<rparr>, map (spec_segment data) [i ..< Suc j])"
  using assms
proof (induction "j - i" arbitrary: i)
  case 0
  then have ij: "i = j" by simp
  have lt: "7 * i < length data" using 0 ij by simp
  show ?case
    unfolding segment_loop_step [OF lt]
    using 0(3,4) ij by (simp add: toggle_mismatch_def)
next
  case (Suc m)
  then have ij: "i < j" by simp
  have lt: "7 * i < length data" using Suc.prems(4) ij by simp
  have lt': "7 * Suc i < length data" using Suc.prems(4) ij by simp
  obtain r' where r': "bus (Suc i) = Reply r'" "echoes_toggle (of_nat (i mod 2)) r'"
    using Suc.prems(1) ij by auto
  have IH: "segment_loop bus st data (7 * Suc i) (of_nat (Suc i mod 2)) (Suc (Suc i)) =
         (False, st\<lparr>g_last_abort_code := SDO_ABORT_TOGGLE_ERROR\<rparr>, map (spec_segment data) [Suc i ..< Suc j])"
    using Suc.hyps(2) Suc.prems ij by (intro Suc.hyps(1)) auto
  have off: "min (7 * Suc i) (length data) = 7 * Suc i" using lt' by simp
  have upt: "[i ..< Suc j] = i # [Suc i ..< Suc j]" using ij by (simp add: upt_conv_Cons)
  show ?case
    unfolding segment_loop_step [OF lt] r' off IH upt
    using r'(2) by (simp add: echoes_toggle_def)
qed

lemma spec_segmented_download_hd_tl:
  "spec_segmented_download index subIndex data =
     initiate_frame index subIndex (length data)
       # map (spec_segment data) [0 ..< (length data + 6) div 7]"
  using initiate_frame_spec [of index subIndex data] by (simp add: spec_segmented_download_def)

text \<open>The download of more than four bytes, once the initiate request is acknowledged.\<close>

lemma sdo_download_segmented_acked:
  assumes "0 \<le> g_can_socket st" and "4 < length data"
    and "bus 0 = Reply ack" and "byte_at ack 0 AND 0xE0 = SDO_SCS_DOWNLOAD_INIT_RESP"
  shows "sdo_download bus st nodeId index subIndex data =
         (case segment_loop bus (st\<lparr>g_last_abort_code := SDO_ABORT_NONE\<rparr>) data 0 0 1 of
            (ok, st', frames) \<Rightarrow> (ok, st', initiate_frame index subIndex (length data) # frames))"
proof -
  have "0 < length ack"
    using assms(4) by (cases ack) (simp_all add: byte_at_def SDO_SCS_DOWNLOAD_INIT_RESP_def)
  then show ?thesis
    using assms by (simp add: sdo_download_def Let_def SDO_ABORT_def SDO_SCS_DOWNLOAD_INIT_RESP_def)
qed

lemma sdo_download_prefix:
  assumes "0 \<le> g_can_socket st" and "4 < length data"
  shows "case sdo_download bus st nodeId index subIndex data of
           (ok, st', frames) \<Rightarrow>
             prefix frames (spec_segmented_download index subIndex data)
             \<and> (ok \<longrightarrow> frames = spec_segmented_download index subIndex data)"
  using assms
    segment_loop_prefix [where bus = bus and st = "st\<lparr>g_last_abort_code := SDO_ABORT_NONE\<rparr>"
      and data = data and i = 0]
  by (auto simp add: sdo_download_def Let_def spec_segmented_download_hd_tl
      split: sdo_event.splits prod.splits)

lemma sdo_download_acked:
  assumes "0 \<le> g_can_socket st" and "4 < length data"
  shows "sdo_download acking_server st nodeId index subIndex data =
         (True, st\<lparr>g_last_abort_code := SDO_ABORT_NONE\<rparr>, spec_segmented_download index subIndex data)"
proof -
  have "acking_server 0 = Reply [0x60]" by (simp add: acking_server_def)
  moreover have "byte_at [0x60] 0 AND 0xE0 = SDO_SCS_DOWNLOAD_INIT_RESP"
    by (simp add: byte_at_def SDO_SCS_DOWNLOAD_INIT_RESP_def)
  ultimately show ?thesis
    using sdo_download_segmented_acked
        [where bus = acking_server and ack = "[0x60]" and nodeId = nodeId and index = index
          and subIndex = subIndex, OF assms]
      segment_loop_acked [where st = "st\<lparr>g_last_abort_code := SDO_ABORT_NONE\<rparr>" and data = data and i = 0]
    by (simp add: spec_segmented_download_hd_tl)
qed

lemma seven_byte_download:
  "spec_segmented_download index subIndex [b0, b1, b2, b3, b4, b5, b6] =
     [[0x21, ucast index, ucast (drop_bit 8 index), subIndex, 0x07, 0x00, 0x00, 0x00],
      [0x01, b0, b1, b2, b3, b4, b5, b6]]"
  by (simp add: spec_segmented_download_def spec_segment_def)

text \<open>
  C3. A download of more than four bytes transmits the initiate frame \<open>0x21\<close>, index
  (little-endian), sub-index, 32-bit size (little-endian), and then the segments:
  \<open>ceil (len / 7)\<close> of them, with toggle bits 0, 1, 0, 1, ..., each with
  \<open>min 7 remaining\<close> data bytes and the command byte
  \<open>(toggle << 4) | ((7 - segLen) << 1) | last\<close>. What goes out is always an initial
  part of that sequence, all of it when the download returns true, which it does with a
  server that acknowledges every frame. Seven bytes give the initiate frame and one
  segment \<open>[0x01, b0, \<dots>, b6]\<close>.
\<close>

theorem segmented_download_frames:
  assumes "0 \<le> g_can_socket st" and "4 < length data"
  shows "prefix (snd (snd (sdo_download bus st nodeId index subIndex data)))
           (spec_segmented_download index subIndex data)
         \<and> (fst (sdo_download bus st nodeId index subIndex data) \<longrightarrow>
              snd (snd (sdo_download bus st nodeId index subIndex data))
                = spec_segmented_download index subIndex data)
         \<and> sdo_download acking_server st nodeId index subIndex data =
             (True, st\<lparr>g_last_abort_code := SDO_ABORT_NONE\<rparr>, spec_segmented_download index subIndex data)
         \<and> length (spec_segmented_download index subIndex data) = 1 + (length data + 6) div 7
         \<and> spec_segmented_download index subIndex [b0, b1, b2, b3, b4, b5, b6] =
             [[0x21, ucast index, ucast (drop_bit 8 index), subIndex, 0x07, 0x00, 0x00, 0x00],
              [0x01, b0, b1, b2, b3, b4, b5, b6]]"
  using sdo_download_prefix [OF assms, where bus = bus and nodeId = nodeId and index = index
      and subIndex = subIndex]
    sdo_download_acked [OF assms, where nodeId = nodeId and index = index and subIndex = subIndex]
    seven_byte_download [where index = index and subIndex = subIndex and ?b0.0 = b0 and ?b1.0 = b1
      and ?b2.0 = b2 and ?b3.0 = b3 and ?b4.0 = b4 and ?b5.0 = b5 and ?b6.0 = b6]
  by (simp add: spec_segmented_download_def split: prod.splits)

theorem segmented_download_frames_witness:
  "0 \<le> g_can_socket open_client \<and> 4 < length [0x11, 0x22, 0x33, 0x44, 0x55, 0x66, 0x77 :: u8]
   \<and> sdo_download acking_server open_client 0x10 0x1F50 1 [0x11, 0x22, 0x33, 0x44, 0x55, 0x66, 0x77] =
       (True, open_client,
        [[0x21, 0x50, 0x1F, 0x01, 0x07, 0x00, 0x00, 0x00],
         [0x01, 0x11, 0x22, 0x33, 0x44, 0x55, 0x66, 0x77]])"
  using segmented_download_frames
    [where st = open_client and data = "[0x11, 0x22, 0x33, 0x44, 0x55, 0x66, 0x77]"
       and bus = acking_server and nodeId = "0x10" and index = "0x1F50" and subIndex = 1
       and ?b0.0 = "0x11" and ?b1.0 = "0x22" and ?b2.0 = "0x33" and ?b3.0 = "0x44"
       and ?b4.0 = "0x55" and ?b5.0 = "0x66" and ?b6.0 = "0x77"]
  by (simp add: open_client_def SDO_ABORT_NONE_def)

section \<open>Toggle errors\<close>

text \<open>An abort frame in answer to a segment is reported with the code it carries.\<close>

lemma segment_abort_reported:
  assumes "7 * i < length data" and "bus (Suc i) = Reply r" and "byte_at r 0 AND 0xE0 = SDO_ABORT"
  shows "segment_loop bus st data (7 * i) (of_nat (i mod 2)) (Suc i) =
         (False, st\<lparr>g_last_abort_code := parse_abort_code r\<rparr>, [spec_segment data i])"
proof -
  have "0 < length r"
    using assms(3) by (cases r) (simp_all add: byte_at_def SDO_ABORT_def)
  then show ?thesis
    unfolding segment_loop_step [OF assms(1)] using assms(2,3) by simp
qed

text \<open>
  A frame without data bytes in answer to a segment is not taken as a response: the
  wait ends with the timeout, whatever toggle bit was expected.
\<close>

lemma segment_without_command_byte_times_out:
  assumes "7 * i < length data" and "bus (Suc i) = Reply []"
  shows "segment_loop bus st data (7 * i) (of_nat (i mod 2)) (Suc i) =
         (False, st\<lparr>g_last_abort_code := SDO_ABORT_TIMEOUT\<rparr>, [spec_segment data i])"
  unfolding segment_loop_step [OF assms(1)] using assms(2) by simp

text \<open>
  C4. In a segmented download whose initiate request and first \<open>j\<close> segments are
  acknowledged, a segment response (a frame with a command byte that is not an SDO
  abort, such as every frame with the segment-response specifier \<open>0x20\<close>) whose bit 4
  differs from the toggle bit \<open>j mod 2\<close> sent with segment \<open>j\<close> ends the download: it
  returns false, the last abort code is \<open>0x05030000\<close>, and the frames sent are the
  initiate frame and the segments \<open>0 .. j\<close>, none after the mismatch.
\<close>

theorem toggle_mismatch_is_fatal:
  assumes "0 \<le> g_can_socket st" and "4 < length data"
    and "bus 0 = Reply ack" and "byte_at ack 0 AND 0xE0 = SDO_SCS_DOWNLOAD_INIT_RESP"
    and "\<forall>n < j. \<exists>r. bus (Suc n) = Reply r \<and> echoes_toggle (of_nat (n mod 2)) r"
    and "7 * j < length data"
    and "bus (Suc j) = Reply r" and "toggle_mismatch (of_nat (j mod 2)) r"
  shows "sdo_download bus st nodeId index subIndex data =
           (False, st\<lparr>g_last_abort_code := SDO_ABORT_TOGGLE_ERROR\<rparr>,
            take (Suc (Suc j)) (spec_segmented_download index subIndex data))
         \<and> sdo_get_last_abort_code (fst (snd (sdo_download bus st nodeId index subIndex data))) = 0x05030000"
proof -
  have jN: "Suc j \<le> (length data + 6) div 7" using assms(6) by auto
  have loop: "segment_loop bus (st\<lparr>g_last_abort_code := SDO_ABORT_NONE\<rparr>) data (7 * 0) (of_nat (0 mod 2)) (Suc 0) =
         (False, st\<lparr>g_last_abort_code := SDO_ABORT_NONE\<rparr>\<lparr>g_last_abort_code := SDO_ABORT_TOGGLE_ERROR\<rparr>,
          map (spec_segment data) [0 ..< Suc j])"
    by (rule segment_loop_mismatch [where j = j and r = r]) (use assms in auto)
  have frames: "take (Suc (Suc j)) (spec_segmented_download index subIndex data) =
        initiate_frame index subIndex (length data) # map (spec_segment data) [0 ..< Suc j]"
    using jN by (simp add: spec_segmented_download_hd_tl take_map del: upt_Suc)
  show ?thesis
    unfolding sdo_download_segmented_acked [where bus = bus and ack = ack, OF assms(1-4)] frames
    using loop by (simp add: sdo_get_last_abort_code_def SDO_ABORT_TOGGLE_ERROR_def)
qed

theorem toggle_mismatch_is_fatal_witness:
  "0 \<le> g_can_socket open_client
   \<and> stale_toggle_server 0 = Reply [0x60]
   \<and> byte_at [0x60] 0 AND 0xE0 = SDO_SCS_DOWNLOAD_INIT_RESP
   \<and> stale_toggle_server 1 = Reply [0x20] \<and> echoes_toggle 0 [0x20]
   \<and> stale_toggle_server 2 = Reply [0x20] \<and> toggle_mismatch 1 [0x20]
   \<and> sdo_download stale_toggle_server open_client 0x10 0x1F50 1
        [1, 2, 3, 4, 5, 6, 7, 8, 9, 10, 11, 12, 13, 14, 15, 16, 17, 18, 19, 20] =
       (False, open_client\<lparr>g_last_abort_code := 0x05030000\<rparr>,
        [[0x21, 0x50, 0x1F, 0x01, 0x14, 0x00, 0x00, 0x00],
         [0x00, 1, 2, 3, 4, 5, 6, 7],
         [0x10, 8, 9, 10, 11, 12, 13, 14]])"
proof -
  have h1: "0 \<le> g_can_socket open_client" by (simp add: open_client_def)
  have h3: "stale_toggle_server 0 = Reply [0x60]" by (simp add: stale_toggle_server_def)
  have h4: "byte_at [0x60] 0 AND 0xE0 = SDO_SCS_DOWNLOAD_INIT_RESP"
    by (simp add: byte_at_def SDO_SCS_DOWNLOAD_INIT_RESP_def)
  have e0: "echoes_toggle 0 [0x20]" by (simp add: echoes_toggle_def byte_at_def SDO_ABORT_def)
  have h5: "\<forall>n < 1. \<exists>r. stale_toggle_server (Suc n) = Reply r \<and> echoes_toggle (of_nat (n mod 2)) r"
    using e0 by (simp add: stale_toggle_server_def)
  have h7: "stale_toggle_server (Suc 1) = Reply [0x20]" by (simp add: stale_toggle_server_def)
  have h8: "toggle_mismatch (of_nat (1 mod 2)) [0x20]"
    by (simp add: toggle_mismatch_def byte_at_def SDO_ABORT_def)
  have spec: "take (Suc (Suc 1)) (spec_segmented_download 0x1F50 1
                [1, 2, 3, 4, 5, 6, 7, 8, 9, 10, 11, 12, 13, 14, 15, 16, 17, 18, 19, 20]) =
        [[0x21, 0x50, 0x1F, 0x01, 0x14, 0x00, 0x00, 0x00],
         [0x00, 1, 2, 3, 4, 5, 6, 7],
         [0x10, 8, 9, 10, 11, 12, 13, 14]]"
    by (simp add: spec_segmented_download_def spec_segment_def upt_conv_Cons)
  from toggle_mismatch_is_fatal
    [where st = open_client
       and data = "[1, 2, 3, 4, 5, 6, 7, 8, 9, 10, 11, 12, 13, 14, 15, 16, 17, 18, 19, 20]"
       and bus = stale_toggle_server and ack = "[0x60]" and j = 1 and r = "[0x20]"
       and nodeId = "0x10" and index = "0x1F50" and subIndex = 1, OF h1 _ h3 h4 h5 _ h7 h8]
  have "sdo_download stale_toggle_server open_client 0x10 0x1F50 1
        [1, 2, 3, 4, 5, 6, 7, 8, 9, 10, 11, 12, 13, 14, 15, 16, 17, 18, 19, 20] =
       (False, open_client\<lparr>g_last_abort_code := SDO_ABORT_TOGGLE_ERROR\<rparr>,
        take (Suc (Suc 1)) (spec_segmented_download 0x1F50 1
                [1, 2, 3, 4, 5, 6, 7, 8, 9, 10, 11, 12, 13, 14, 15, 16, 17, 18, 19, 20]))"
    by simp
  then show ?thesis
    unfolding spec using h1 h3 h4 e0 h7 h8
    by (simp add: SDO_ABORT_TOGGLE_ERROR_def stale_toggle_server_def)
qed



section \<open>The LSS engine: node IDs and the registry\<close>

lemma CO_LSS_ADDRESS_EQUAL_iff: "CO_LSS_ADDRESS_EQUAL a b \<longleftrightarrow> a = b"
  by (cases a, cases b) (auto simp add: CO_LSS_ADDRESS_EQUAL_def)

lemma advance_id_unat:
  "unat (advance_id c) = (if unat c < 127 then (if unat c = 0 then 2 else unat c + 1) else 2)"
proof (cases "c < 127")
  case False
  then have "\<not> unat c < 127" by (simp add: word_less_nat_alt)
  with False show ?thesis by (simp add: advance_id_def MASTER_NODE_ID_def)
next
  case True
  then have lt: "unat c < 127" by (simp add: word_less_nat_alt)
  then have plus: "unat (c + 1) = unat c + 1" by (simp add: unat_word_ariths)
  show ?thesis
  proof (cases "c = 0")
    case True
    then show ?thesis by (simp add: advance_id_def MASTER_NODE_ID_def)
  next
    case False
    then have nz: "unat c \<noteq> 0" by (simp add: unat_eq_0)
    then have "unat (c + 1) \<noteq> 1" using plus by simp
    then have "c + 1 \<noteq> 1" by auto
    then show ?thesis using True lt nz plus by (simp add: advance_id_def MASTER_NODE_ID_def Let_def)
  qed
qed

lemma advance_id_range: "2 \<le> advance_id c \<and> advance_id c \<le> 127 \<and> advance_id c \<noteq> MASTER_NODE_ID"
proof -
  have "2 \<le> unat (advance_id c) \<and> unat (advance_id c) \<le> 127" by (simp add: advance_id_unat)
  then show ?thesis
    by (auto simp add: word_le_nat_alt MASTER_NODE_ID_def)
qed

lemma find_configured_None: "find_configured a ns = None \<longleftrightarrow> a \<notin> set (map addr ns)"
  by (induction ns) (auto simp add: CO_LSS_ADDRESS_EQUAL_iff)

lemma find_configured_Some: "find_configured a ns = Some i \<Longrightarrow> i < length ns \<and> addr (ns ! i) = a"
  by (induction ns arbitrary: i) (auto simp add: CO_LSS_ADDRESS_EQUAL_iff split: if_splits)

lemma registry_ok_skip:
  assumes "registry_ok ns" and "i < length ns"
  shows "registry_ok (ns[i := (ns ! i)\<lparr>skip_until_us := t\<rparr>])"
proof -
  let ?ns' = "ns[i := (ns ! i)\<lparr>skip_until_us := t\<rparr>]"
  have same: "map addr ?ns' = map addr ns"
    using assms(2) by (simp add: map_update list_update_same_conv)
  have d: "distinct (map addr ?ns')"
    by (simp only: same) (use assms(1) in \<open>simp add: registry_ok_def\<close>)
  have ids: "2 \<le> assigned_node_id n \<and> assigned_node_id n \<le> 127 \<and> assigned_node_id n \<noteq> MASTER_NODE_ID"
    if "n \<in> set ?ns'" for n
  proof -
    from that have "n = (ns ! i)\<lparr>skip_until_us := t\<rparr> \<or> n \<in> set ns"
      using set_update_subset_insert [of ns i] by auto
    then show ?thesis
    proof
      assume "n = (ns ! i)\<lparr>skip_until_us := t\<rparr>"
      then have "assigned_node_id n = assigned_node_id (ns ! i)" by simp
      moreover have "ns ! i \<in> set ns" using assms(2) by simp
      ultimately show ?thesis using assms(1) by (simp add: registry_ok_def)
    next
      assume "n \<in> set ns"
      with assms(1) show ?thesis by (simp add: registry_ok_def)
    qed
  qed
  have l: "length ?ns' \<le> MAX_CONFIGURED_NODES" using assms(1) by (simp add: registry_ok_def)
  show ?thesis unfolding registry_ok_def using d ids l by blast
qed

lemma registry_ok_insert:
  assumes "registry_ok ns" and "find_configured a ns = None" and "length ns < MAX_CONFIGURED_NODES"
    and "2 \<le> c" and "c \<le> 127"
  shows "registry_ok (ns @ [\<lparr>addr = a, skip_until_us = t, assigned_node_id = c\<rparr>])"
proof -
  have "c \<noteq> MASTER_NODE_ID" using assms(4) by (auto simp add: MASTER_NODE_ID_def word_le_nat_alt)
  then show ?thesis
    using assms by (auto simp add: registry_ok_def find_configured_None)
qed

lemma lss_inv_initial: "lss_inv lss_initial"
  by (simp add: lss_inv_def lss_initial_def registry_ok_def ID_INICIO_ASIGNACION_def)

lemma lss_inv_restart: "lss_inv s \<Longrightarrow> lss_inv (lss_restart s)"
  by (simp add: lss_inv_def lss_restart_def ID_INICIO_ASIGNACION_def)

lemma lss_inv_after_fastscan:
  assumes "lss_inv s" and "lssState s = LSS_SCANNING"
  shows "lss_inv (after_fastscan inp ret tk s)"
proof (cases "find_configured (fastscan_found inp) (configured_nodes s)")
  case None
  then show ?thesis
    using assms by (auto simp add: lss_inv_def after_fastscan_def Let_def)
next
  case (Some i)
  from find_configured_Some [OF this] have i: "i < length (configured_nodes s)" by simp
  have reg: "registry_ok (configured_nodes s)" using assms(1) by (simp add: lss_inv_def)
  have id: "2 \<le> assigned_node_id (configured_nodes s ! i) \<and> assigned_node_id (configured_nodes s ! i) \<le> 127"
    using reg i by (auto simp add: registry_ok_def)
  show ?thesis
    using assms Some id registry_ok_skip [OF reg i]
    by (auto simp add: lss_inv_def after_fastscan_def Let_def)
qed

text \<open>Every pass through the switch keeps the invariant.\<close>

lemma lss_inv_tick:
  assumes "lss_inv s" and "lss_tick inp s = Some (s', acts)"
  shows "lss_inv s'"
proof (cases "lssState s")
  case LSS_INIT
  with assms show ?thesis by (auto simp add: lss_tick_def lss_inv_def)
next
  case LSS_SCANNING
  with assms lss_inv_after_fastscan [OF assms(1) LSS_SCANNING] show ?thesis
    by (auto simp add: lss_tick_def Let_def split: option.splits)
next
  case LSS_CONFIG_ID
  with assms advance_id_range [of "current_candidate_id s"] show ?thesis
    by (auto simp add: lss_tick_def lss_inv_def Let_def split: if_splits)
next
  case LSS_CONFIG_STORE
  have reg: "registry_ok (configured_nodes s)" using assms(1) by (simp add: lss_inv_def)
  have cand: "2 \<le> current_candidate_id s" "current_candidate_id s \<le> 127"
    using assms(1) LSS_CONFIG_STORE by (auto simp add: lss_inv_def)
  note ins = registry_ok_insert [OF reg _ _ cand]
  from LSS_CONFIG_STORE assms advance_id_range [of "current_candidate_id s"] ins show ?thesis
    by (auto simp add: lss_tick_def lss_inv_def Let_def split: if_splits)
next
  case LSS_VERIFY_ID
  with assms show ?thesis by (simp add: lss_inv_def)
next
  case LSS_DESELECT
  with assms show ?thesis by (simp add: lss_inv_def)
next
  case LSS_ACTIVATE
  with assms show ?thesis by (auto simp add: lss_tick_def lss_inv_def Let_def split: if_splits)
next
  case LSS_DONE
  with assms show ?thesis by (auto simp add: lss_tick_def lss_inv_def Let_def split: if_splits)
qed

lemma lss_inv_run:
  "lss_inv s \<Longrightarrow> lss_run evs s = Some (s', acts) \<Longrightarrow> lss_inv s'"
proof (induction evs arbitrary: s acts)
  case Nil
  then show ?case by simp
next
  case (Cons ev evs)
  show ?case
  proof (cases ev)
    case Restart
    with Cons.prems Cons.IH [OF lss_inv_restart [OF Cons.prems(1)]] show ?thesis by simp
  next
    case (Tick inp)
    with Cons.prems obtain s1 a1 a2 where
      t: "lss_tick inp s = Some (s1, a1)" and r: "lss_run evs s1 = Some (s', a2)"
      by (auto split: option.splits)
    from Cons.IH [OF lss_inv_tick [OF Cons.prems(1) t] r] show ?thesis .
  qed
qed

subsection \<open>Running the scenarios\<close>

lemma fastscan_loop_answered:
  "fastscan_ret inp 0 \<noteq> CO_LSSmaster_WAIT_SLAVE \<Longrightarrow>
   fastscan_loop (Suc fuel) inp d CO_LSSmaster_WAIT_SLAVE 0 ls lc tk = Some (fastscan_ret inp 0, 1, tk)"
  by (subst fastscan_loop.simps, simp add: Let_def, subst fastscan_loop.simps, simp)

lemma commission_A_result:
  "lss_run commission_A lss_initial =
     Some (commissioned_A, [ConfigureNodeId 0x10, ConfigureStore, SwStateDeselect])"
  by (simp add: commission_A_def commissioned_A_def lss_tick_def after_fastscan_def Let_def lss_initial_def
      idle_input_def found_A_input_def id_ok_input_def store_ok_input_def answered_def
      fastscan_loop_answered node_A_def advance_id_def
      ID_INICIO_ASIGNACION_def MASTER_NODE_ID_def MAX_CONFIGURED_NODES_def CONFIGURED_NODE_SKIP_MS_def
      CO_LSS_ADDRESS_EQUAL_def)

lemma commission_A_second_try_result:
  "lss_run commission_A_second_try lss_initial =
     Some (commissioned_A_second_try,
           [ConfigureNodeId 0x10, ConfigureNodeId 0x11, ConfigureStore, SwStateDeselect])"
  by (simp add: commission_A_second_try_def commissioned_A_second_try_def commissioned_A_def
      lss_tick_def after_fastscan_def Let_def lss_initial_def
      idle_input_def found_A_input_def id_ok_input_def id_rejected_input_def store_ok_input_def
      answered_def fastscan_loop_answered node_A_def advance_id_def
      ID_INICIO_ASIGNACION_def MASTER_NODE_ID_def MAX_CONFIGURED_NODES_def CONFIGURED_NODE_SKIP_MS_def
      CO_LSS_ADDRESS_EQUAL_def)

lemma store_result:
  "lss_tick store_ok_input storing = Some (stored, [ConfigureStore, SwStateDeselect])"
  by (simp add: storing_def stored_def lss_tick_def Let_def lss_initial_def
      idle_input_def store_ok_input_def advance_id_def
      ID_INICIO_ASIGNACION_def MASTER_NODE_ID_def MAX_CONFIGURED_NODES_def CONFIGURED_NODE_SKIP_MS_def)

section \<open>The registry of configured nodes\<close>

text \<open>
  C8. After any sequence of passes and restarts from the initial state with the empty
  registry, any two records of the registry have different LSS addresses, every
  assigned node ID lies between 2 and 127 and is not the master's, and the registry
  holds at most 32 records.
\<close>

theorem registry_invariant:
  assumes "lss_run evs lss_initial = Some (s, acts)"
  shows "distinct (map addr (configured_nodes s))
         \<and> (\<forall>i < length (configured_nodes s). \<forall>j < length (configured_nodes s). i \<noteq> j \<longrightarrow>
              \<not> CO_LSS_ADDRESS_EQUAL (addr (configured_nodes s ! i)) (addr (configured_nodes s ! j)))
         \<and> (\<forall>n \<in> set (configured_nodes s).
              2 \<le> assigned_node_id n \<and> assigned_node_id n \<le> 127 \<and> assigned_node_id n \<noteq> MASTER_NODE_ID)
         \<and> length (configured_nodes s) \<le> 32"
proof -
  from lss_inv_run [OF lss_inv_initial assms] have "registry_ok (configured_nodes s)"
    by (simp add: lss_inv_def)
  then show ?thesis
    by (auto simp add: registry_ok_def MAX_CONFIGURED_NODES_def CO_LSS_ADDRESS_EQUAL_iff
        distinct_conv_nth)
qed

theorem registry_invariant_witness:
  "map_option configured_nodes (lss_state_after commission_A)
     = Some [\<lparr>addr = node_A, skip_until_us = 30000000, assigned_node_id = 0x10\<rparr>]
   \<and> distinct (map addr [\<lparr>addr = node_A, skip_until_us = 30000000, assigned_node_id = 0x10\<rparr>])
   \<and> (2 :: u8) \<le> 0x10 \<and> (0x10 :: u8) \<le> 127 \<and> 0x10 \<noteq> MASTER_NODE_ID"
  using registry_invariant [OF commission_A_result]
  by (simp add: lss_state_after_def commission_A_result commissioned_A_def)

section \<open>The verification states are dead\<close>

lemma lss_tick_total_outside_scan:
  "lssState s \<noteq> LSS_SCANNING \<Longrightarrow> \<exists>s' acts. lss_tick inp s = Some (s', acts)"
  by (cases "lssState s") (auto simp add: lss_tick_def Let_def)

lemma lss_tick_enter_verify:
  assumes "lss_tick inp s = Some (s', acts)" and "lssState s' = LSS_VERIFY_ID"
  shows "lssState s = LSS_VERIFY_ID"
proof (cases "lssState s")
  case LSS_SCANNING
  with assms show ?thesis
    by (auto simp add: lss_tick_def after_fastscan_def Let_def split: option.splits if_splits)
qed (use assms in \<open>auto simp add: lss_tick_def Let_def split: if_splits\<close>)

lemma lss_tick_enter_deselect:
  assumes "lss_tick inp s = Some (s', acts)" and "lssState s' = LSS_DESELECT"
  shows "lssState s = LSS_VERIFY_ID"
proof (cases "lssState s")
  case LSS_SCANNING
  with assms show ?thesis
    by (auto simp add: lss_tick_def after_fastscan_def Let_def split: option.splits if_splits)
qed (use assms in \<open>auto simp add: lss_tick_def Let_def split: if_splits\<close>)

lemma lss_tick_store_ok:
  assumes "lssState s = LSS_CONFIG_STORE" and "configureStore_ret inp = CO_LSSmaster_OK"
    and "lss_tick inp s = Some (s', acts)"
  shows "lssState s' = LSS_ACTIVATE \<and> acts = [ConfigureStore, SwStateDeselect]
         \<and> next_id_to_assign s' = advance_id (current_candidate_id s)"
  using assms by (auto simp add: lss_tick_def Let_def)

text \<open>
  C9. \<^verbatim>\<open>LSS_VERIFY_ID\<close> and \<^verbatim>\<open>LSS_DESELECT\<close> are not reachable from the initial
  state. No pass moves into \<^verbatim>\<open>LSS_VERIFY_ID\<close> from another state, and
  \<^verbatim>\<open>LSS_DESELECT\<close> is entered from \<^verbatim>\<open>LSS_VERIFY_ID\<close> only. A successful store
  sends the deselect in the same pass and goes to \<^verbatim>\<open>LSS_ACTIVATE\<close>.
\<close>

theorem verify_and_deselect_unreachable:
  "(lss_run evs lss_initial = Some (s, acts) \<longrightarrow>
      lssState s \<noteq> LSS_VERIFY_ID \<and> lssState s \<noteq> LSS_DESELECT)
   \<and> (lss_tick inp t = Some (t', a) \<and> lssState t' = LSS_VERIFY_ID \<longrightarrow> lssState t = LSS_VERIFY_ID)
   \<and> (lss_tick inp t = Some (t', a) \<and> lssState t' = LSS_DESELECT \<longrightarrow> lssState t = LSS_VERIFY_ID)
   \<and> (lssState u = LSS_CONFIG_STORE \<and> configureStore_ret inp' = CO_LSSmaster_OK
        \<and> lss_tick inp' u = Some (u', b) \<longrightarrow>
        lssState u' = LSS_ACTIVATE \<and> b = [ConfigureStore, SwStateDeselect])"
proof (intro conjI impI)
  assume "lss_run evs lss_initial = Some (s, acts)"
  from lss_inv_run [OF lss_inv_initial this]
  show "lssState s \<noteq> LSS_VERIFY_ID" and "lssState s \<noteq> LSS_DESELECT"
    by (simp_all add: lss_inv_def)
next
  assume "lss_tick inp t = Some (t', a) \<and> lssState t' = LSS_VERIFY_ID"
  then show "lssState t = LSS_VERIFY_ID" using lss_tick_enter_verify by blast
next
  assume "lss_tick inp t = Some (t', a) \<and> lssState t' = LSS_DESELECT"
  then show "lssState t = LSS_VERIFY_ID" using lss_tick_enter_deselect by blast
next
  assume h: "lssState u = LSS_CONFIG_STORE \<and> configureStore_ret inp' = CO_LSSmaster_OK
        \<and> lss_tick inp' u = Some (u', b)"
  then show "lssState u' = LSS_ACTIVATE" using lss_tick_store_ok by blast
  from h show "b = [ConfigureStore, SwStateDeselect]" using lss_tick_store_ok by blast
qed

theorem verify_and_deselect_unreachable_witness:
  "map_option lssState (lss_state_after commission_A) = Some LSS_ACTIVATE
   \<and> lssState verifying = LSS_VERIFY_ID
   \<and> lss_tick idle_input verifying = Some (verifying, [InquireNodeId])
   \<and> lssState storing = LSS_CONFIG_STORE
   \<and> configureStore_ret store_ok_input = CO_LSSmaster_OK
   \<and> lss_tick store_ok_input storing = Some (stored, [ConfigureStore, SwStateDeselect])
   \<and> lssState stored = LSS_ACTIVATE"
proof -
  have v: "lss_tick idle_input verifying = Some (verifying, [InquireNodeId])"
    by (simp add: lss_tick_def verifying_def idle_input_def Let_def)
  have sv: "lssState verifying = LSS_VERIFY_ID" by (simp add: verifying_def)
  have ss: "lssState storing = LSS_CONFIG_STORE" by (simp add: storing_def)
  have ok: "configureStore_ret store_ok_input = CO_LSSmaster_OK"
    by (simp add: store_ok_input_def idle_input_def)
  note inst = verify_and_deselect_unreachable
    [where evs = commission_A and s = commissioned_A
       and acts = "[ConfigureNodeId 0x10, ConfigureStore, SwStateDeselect]"
       and inp = idle_input and t = verifying and t' = verifying and a = "[InquireNodeId]"
       and inp' = store_ok_input and u = storing and u' = stored
       and b = "[ConfigureStore, SwStateDeselect]"]
  from inst commission_A_result have "lssState commissioned_A \<noteq> LSS_VERIFY_ID" by blast
  moreover have "lssState commissioned_A = LSS_ACTIVATE" by (simp add: commissioned_A_def)
  moreover from inst ss ok store_result have "lssState stored = LSS_ACTIVATE" by blast
  ultimately show ?thesis
    using v sv ss ok store_result by (simp add: lss_state_after_def commission_A_result)
qed

section \<open>Allocation of node IDs\<close>

lemma advance_id_succ: "2 \<le> c \<Longrightarrow> c < 127 \<Longrightarrow> advance_id c = c + 1"
proof -
  assume a: "2 \<le> c" "c < 127"
  then have u: "2 \<le> unat c" "unat c < 127" by (simp_all add: word_le_nat_alt word_less_nat_alt)
  then have "unat (advance_id c) = unat c + 1" by (simp add: advance_id_unat)
  also have "\<dots> = unat (c + 1)" using u by (simp add: unat_word_ariths)
  finally show ?thesis by (simp add: word_unat_eq_iff)
qed

lemma advance_id_wrap: "advance_id 127 = 2"
  by (simp add: advance_id_def MASTER_NODE_ID_def)

text \<open>
  \<open>n\<close> rejections in a row, while the round counter stays at or below 126: the engine
  stays in \<^verbatim>\<open>LSS_CONFIG_ID\<close> and has tried the first \<open>n\<close> candidates of the
  rotation.
\<close>

lemma rejections_keep_trying:
  assumes "configureNodeId_ret inp = CO_LSSmaster_OK_ILLEGAL_ARGUMENT"
  shows "lssState s = LSS_CONFIG_ID \<Longrightarrow> id_attempt_rounds s + int n \<le> 126 \<Longrightarrow>
         \<exists>s'. lss_run (replicate n (Tick inp)) s =
                 Some (s', map (\<lambda>i. ConfigureNodeId ((advance_id ^^ i) (current_candidate_id s))) [0 ..< n])
               \<and> lssState s' = LSS_CONFIG_ID
               \<and> id_attempt_rounds s' = id_attempt_rounds s + int n
               \<and> current_candidate_id s' = (advance_id ^^ n) (current_candidate_id s)"
proof (induction n arbitrary: s)
  case 0
  then show ?case by simp
next
  case (Suc n)
  define s1 where "s1 = s\<lparr>log_config_id := True,
                           current_candidate_id := advance_id (current_candidate_id s),
                           id_attempt_rounds := id_attempt_rounds s + 1\<rparr>"
  have tick: "lss_tick inp s = Some (s1, [ConfigureNodeId (current_candidate_id s)])"
    using assms Suc.prems by (simp add: lss_tick_def Let_def s1_def)
  have s1: "lssState s1 = LSS_CONFIG_ID" "id_attempt_rounds s1 + int n \<le> 126"
    using Suc.prems by (simp_all add: s1_def)
  from Suc.IH [OF s1] obtain s' where
    run: "lss_run (replicate n (Tick inp)) s1 =
            Some (s', map (\<lambda>i. ConfigureNodeId ((advance_id ^^ i) (current_candidate_id s1))) [0 ..< n])"
    and st: "lssState s' = LSS_CONFIG_ID"
    and rounds: "id_attempt_rounds s' = id_attempt_rounds s1 + int n"
    and cand: "current_candidate_id s' = (advance_id ^^ n) (current_candidate_id s1)"
    by blast
  have c1: "current_candidate_id s1 = advance_id (current_candidate_id s)" by (simp add: s1_def)
  have acts: "ConfigureNodeId (current_candidate_id s)
                # map (\<lambda>i. ConfigureNodeId ((advance_id ^^ i) (current_candidate_id s1))) [0 ..< n]
              = map (\<lambda>i. ConfigureNodeId ((advance_id ^^ i) (current_candidate_id s))) [0 ..< Suc n]"
    unfolding c1 by (simp add: map_upt_Suc funpow_swap1 del: upt_Suc)
  show ?case
    using tick run st rounds cand acts
    by (simp add: c1 s1_def funpow_swap1 del: upt_Suc)
qed

lemma rotation_in_range:
  "2 \<le> c \<Longrightarrow> c \<le> 127 \<Longrightarrow> 2 \<le> (advance_id ^^ i) c \<and> (advance_id ^^ i) c \<le> 127"
  by (cases i) (simp_all add: advance_id_range)

lemma card_node_ids: "card {c :: u8. 2 \<le> c \<and> c \<le> 127} \<le> 126"
proof -
  have "unat ` {c :: u8. 2 \<le> c \<and> c \<le> 127} \<subseteq> {2 .. 127}"
    by (auto simp add: word_le_nat_alt)
  then have "card (unat ` {c :: u8. 2 \<le> c \<and> c \<le> 127}) \<le> card {2 .. 127 :: nat}"
    by (intro card_mono) simp_all
  moreover have "inj_on unat {c :: u8. 2 \<le> c \<and> c \<le> 127}"
    by (rule inj_onI) (simp add: word_unat_eq_iff)
  ultimately show ?thesis by (simp add: card_image)
qed

lemma configured_ids_map:
  "configured_ids (map (\<lambda>i. ConfigureNodeId (f i)) is) = map f is"
  by (induction "is") simp_all

text \<open>The rejection that takes the round counter beyond 126 makes the engine give up.\<close>

lemma lss_run_snoc:
  "lss_run xs s = Some (s1, a1) \<Longrightarrow> lss_tick inp s1 = Some (s2, a2) \<Longrightarrow>
   lss_run (xs @ [Tick inp]) s = Some (s2, a1 @ a2)"
proof (induction xs arbitrary: s a1)
  case Nil
  then show ?case by simp
next
  case (Cons x xs)
  then show ?case by (cases x) (auto split: option.splits)
qed

lemma rejections_give_up:
  assumes "configureNodeId_ret inp = CO_LSSmaster_OK_ILLEGAL_ARGUMENT"
    and "lssState s = LSS_CONFIG_ID" and "id_attempt_rounds s + int n = 126"
    and "2 \<le> current_candidate_id s" and "current_candidate_id s \<le> 127"
  shows "\<exists>s' acts. lss_run (replicate (Suc n) (Tick inp)) s = Some (s', acts)
           \<and> lssState s' = LSS_DONE \<and> length (configured_ids acts) = Suc n
           \<and> card (set (configured_ids acts)) \<le> 126"
proof -
  let ?f = "\<lambda>i. (advance_id ^^ i) (current_candidate_id s)"
  from rejections_keep_trying [OF assms(1,2), of n] assms(3) obtain s1 where
    run: "lss_run (replicate n (Tick inp)) s = Some (s1, map (\<lambda>i. ConfigureNodeId (?f i)) [0 ..< n])"
    and st: "lssState s1 = LSS_CONFIG_ID" and rounds: "id_attempt_rounds s1 = 126"
    and cand: "current_candidate_id s1 = ?f n"
    by auto
  define s2 where "s2 = s1\<lparr>log_config_id := True,
                           current_candidate_id := advance_id (current_candidate_id s1),
                           id_attempt_rounds := 127, lssState := LSS_DONE\<rparr>"
  have tick: "lss_tick inp s1 = Some (s2, [ConfigureNodeId (?f n)])"
    using assms(1) st rounds cand by (simp add: lss_tick_def Let_def s2_def)
  have rep: "replicate (Suc n) (Tick inp) = replicate n (Tick inp) @ [Tick inp]"
    by (simp only: replicate_Suc replicate_append_same)
  have acts: "map (\<lambda>i. ConfigureNodeId (?f i)) [0 ..< n] @ [ConfigureNodeId (?f n)]
              = map (\<lambda>i. ConfigureNodeId (?f i)) [0 ..< Suc n]"
    by simp
  from lss_run_snoc [OF run tick] have full:
    "lss_run (replicate (Suc n) (Tick inp)) s = Some (s2, map (\<lambda>i. ConfigureNodeId (?f i)) [0 ..< Suc n])"
    by (simp only: rep acts)
  have ids: "configured_ids (map (\<lambda>i. ConfigureNodeId (?f i)) [0 ..< Suc n]) = map ?f [0 ..< Suc n]"
    by (rule configured_ids_map)
  have "set (map ?f [0 ..< Suc n]) \<subseteq> {c. 2 \<le> c \<and> c \<le> 127}"
    using rotation_in_range [OF assms(4,5)] by auto
  then have "card (set (map ?f [0 ..< Suc n])) \<le> card {c :: u8. 2 \<le> c \<and> c \<le> 127}"
    by (intro card_mono) simp_all
  with card_node_ids have "card (set (map ?f [0 ..< Suc n])) \<le> 126" by simp
  moreover have "length (map ?f [0 ..< Suc n]) = Suc n" by simp
  moreover have "lssState s2 = LSS_DONE" by (simp add: s2_def)
  ultimately show ?thesis using full unfolding ids [symmetric] by blast
qed

lemma before_store_result:
  "map_option next_id_to_assign (lss_state_after (take 4 commission_A_second_try)) = Some 0x10"
  by (simp add: lss_state_after_def commission_A_second_try_def
      lss_tick_def after_fastscan_def Let_def lss_initial_def
      idle_input_def found_A_input_def id_ok_input_def id_rejected_input_def
      answered_def fastscan_loop_answered node_A_def advance_id_def
      ID_INICIO_ASIGNACION_def MASTER_NODE_ID_def CONFIGURED_NODE_SKIP_MS_def
      CO_LSS_ADDRESS_EQUAL_def)

text \<open>
  C6 as stated fails: when the node rejects the first candidate and accepts the
  second, the one successful store takes \<^verbatim>\<open>next_id_to_assign\<close> from 16 to 18.
\<close>

theorem next_id_follows_accepted_candidate:
  "map_option next_id_to_assign (lss_state_after (take 4 commission_A_second_try)) = Some 0x10
   \<and> map_option next_id_to_assign (lss_state_after commission_A_second_try) = Some 0x12
   \<and> lss_actions_of commission_A_second_try lss_initial
       = Some [ConfigureNodeId 0x10, ConfigureNodeId 0x11, ConfigureStore, SwStateDeselect]
   \<and> (0x10 :: u8) + 1 \<noteq> 0x12"
  using before_store_result
  by (simp add: lss_state_after_def lss_actions_of_def commission_A_second_try_result
      commissioned_A_second_try_def)

text \<open>
  C6, amended. \<^verbatim>\<open>next_id_to_assign\<close> starts at \<open>0x10\<close>, also after a restart.
  After a successful store for a node that is not yet in the registry it is the
  successor of the node ID just stored, where the successor of \<open>c\<close> is \<open>c + 1\<close> below
  127 and 2 at 127; so it advances by 1 when the node accepted the candidate the round
  began with. The master's node ID 1 is never produced. When configure-node-ID keeps
  answering \<^verbatim>\<open>OK_ILLEGAL_ARGUMENT\<close>, the engine keeps trying for 126 rejections and
  gives up at the 127th, having tried no more than 126 distinct IDs.
\<close>

theorem node_id_allocation:
  "next_id_to_assign lss_initial = 0x10 \<and> next_id_to_assign (lss_restart s0) = 0x10
   \<and> (lssState s = LSS_CONFIG_STORE \<and> configureStore_ret inp = CO_LSSmaster_OK
        \<and> find_configured (last_found_address s) (configured_nodes s) = None
        \<and> lss_tick inp s = Some (s', acts) \<longrightarrow>
        next_id_to_assign s' = advance_id (current_candidate_id s)
        \<and> (current_candidate_id s = next_id_to_assign s \<and> 2 \<le> next_id_to_assign s
             \<and> next_id_to_assign s < 127 \<longrightarrow>
            next_id_to_assign s' = next_id_to_assign s + 1))
   \<and> (2 \<le> c \<and> c < 127 \<longrightarrow> advance_id c = c + 1) \<and> advance_id 127 = 2
   \<and> advance_id c' \<noteq> MASTER_NODE_ID \<and> 2 \<le> advance_id c' \<and> advance_id c' \<le> 127
   \<and> (lss_run evs lss_initial = Some (r, racts) \<longrightarrow>
        next_id_to_assign r \<noteq> MASTER_NODE_ID
        \<and> (lssState r \<noteq> LSS_INIT \<longrightarrow> current_candidate_id r \<noteq> MASTER_NODE_ID))
   \<and> (lssState q = LSS_CONFIG_ID \<and> id_attempt_rounds q = 0
        \<and> 2 \<le> current_candidate_id q \<and> current_candidate_id q \<le> 127
        \<and> configureNodeId_ret rej = CO_LSSmaster_OK_ILLEGAL_ARGUMENT \<longrightarrow>
        (\<forall>n \<le> 126. \<exists>q' a. lss_run (replicate n (Tick rej)) q = Some (q', a) \<and> lssState q' = LSS_CONFIG_ID)
        \<and> (\<exists>q' a. lss_run (replicate 127 (Tick rej)) q = Some (q', a) \<and> lssState q' = LSS_DONE
              \<and> length (configured_ids a) = 127 \<and> card (set (configured_ids a)) \<le> 126))"
proof -
  have start: "next_id_to_assign lss_initial = 0x10 \<and> next_id_to_assign (lss_restart s0) = 0x10"
    by (simp add: lss_initial_def lss_restart_def ID_INICIO_ASIGNACION_def)
  have store: "next_id_to_assign s' = advance_id (current_candidate_id s)
        \<and> (current_candidate_id s = next_id_to_assign s \<and> 2 \<le> next_id_to_assign s
             \<and> next_id_to_assign s < 127 \<longrightarrow>
            next_id_to_assign s' = next_id_to_assign s + 1)"
    if "lssState s = LSS_CONFIG_STORE \<and> configureStore_ret inp = CO_LSSmaster_OK
        \<and> find_configured (last_found_address s) (configured_nodes s) = None
        \<and> lss_tick inp s = Some (s', acts)"
    using that lss_tick_store_ok [of s inp s' acts] advance_id_succ [of "next_id_to_assign s"]
    by auto
  have master: "next_id_to_assign r \<noteq> MASTER_NODE_ID
        \<and> (lssState r \<noteq> LSS_INIT \<longrightarrow> current_candidate_id r \<noteq> MASTER_NODE_ID)"
    if "lss_run evs lss_initial = Some (r, racts)"
  proof -
    from lss_inv_run [OF lss_inv_initial that]
    have "2 \<le> next_id_to_assign r"
      and "lssState r \<noteq> LSS_INIT \<longrightarrow> 2 \<le> current_candidate_id r"
      by (auto simp add: lss_inv_def)
    then show ?thesis by (auto simp add: MASTER_NODE_ID_def word_le_nat_alt)
  qed
  have rot: "(\<forall>n \<le> 126. \<exists>q' a. lss_run (replicate n (Tick rej)) q = Some (q', a) \<and> lssState q' = LSS_CONFIG_ID)
        \<and> (\<exists>q' a. lss_run (replicate 127 (Tick rej)) q = Some (q', a) \<and> lssState q' = LSS_DONE
              \<and> length (configured_ids a) = 127 \<and> card (set (configured_ids a)) \<le> 126)"
    if h: "lssState q = LSS_CONFIG_ID \<and> id_attempt_rounds q = 0
        \<and> 2 \<le> current_candidate_id q \<and> current_candidate_id q \<le> 127
        \<and> configureNodeId_ret rej = CO_LSSmaster_OK_ILLEGAL_ARGUMENT"
  proof
    show "\<forall>n \<le> 126. \<exists>q' a. lss_run (replicate n (Tick rej)) q = Some (q', a) \<and> lssState q' = LSS_CONFIG_ID"
    proof (intro allI impI)
      fix n :: nat assume "n \<le> 126"
      then have "id_attempt_rounds q + int n \<le> 126" using h by simp
      from rejections_keep_trying [of rej q n] h this
      show "\<exists>q' a. lss_run (replicate n (Tick rej)) q = Some (q', a) \<and> lssState q' = LSS_CONFIG_ID"
        by blast
    qed
    have "id_attempt_rounds q + int 126 = 126" using h by simp
    from rejections_give_up [of rej q 126] h this
    have "\<exists>s' acts. lss_run (replicate (Suc 126) (Tick rej)) q = Some (s', acts)
           \<and> lssState s' = LSS_DONE \<and> length (configured_ids acts) = Suc 126
           \<and> card (set (configured_ids acts)) \<le> 126"
      by blast
    moreover have "Suc 126 = 127" by simp
    ultimately show "\<exists>q' a. lss_run (replicate 127 (Tick rej)) q = Some (q', a) \<and> lssState q' = LSS_DONE
              \<and> length (configured_ids a) = 127 \<and> card (set (configured_ids a)) \<le> 126"
      by (simp only:)
  qed
  show ?thesis
    using start store master rot advance_id_succ [of c] advance_id_wrap advance_id_range [of c']
    by blast
qed

theorem node_id_allocation_witness:
  "lssState storing = LSS_CONFIG_STORE \<and> configureStore_ret store_ok_input = CO_LSSmaster_OK
   \<and> find_configured (last_found_address storing) (configured_nodes storing) = None
   \<and> lss_tick store_ok_input storing = Some (stored, [ConfigureStore, SwStateDeselect])
   \<and> current_candidate_id storing = next_id_to_assign storing
   \<and> next_id_to_assign storing = 0x10 \<and> next_id_to_assign stored = 0x11
   \<and> advance_id 0x10 = 0x11
   \<and> lss_run commission_A lss_initial
       = Some (commissioned_A, [ConfigureNodeId 0x10, ConfigureStore, SwStateDeselect])
   \<and> next_id_to_assign commissioned_A \<noteq> MASTER_NODE_ID
   \<and> lssState configuring = LSS_CONFIG_ID \<and> id_attempt_rounds configuring = 0
   \<and> current_candidate_id configuring = 0x10
   \<and> configureNodeId_ret id_rejected_input = CO_LSSmaster_OK_ILLEGAL_ARGUMENT
   \<and> map_option lssState (map_option fst (lss_run (replicate 126 (Tick id_rejected_input)) configuring))
       = Some LSS_CONFIG_ID
   \<and> map_option lssState (map_option fst (lss_run (replicate 127 (Tick id_rejected_input)) configuring))
       = Some LSS_DONE"
proof -
  have s1: "lssState storing = LSS_CONFIG_STORE" "current_candidate_id storing = next_id_to_assign storing"
    "next_id_to_assign storing = 0x10"
    "find_configured (last_found_address storing) (configured_nodes storing) = None"
    by (simp_all add: storing_def lss_initial_def ID_INICIO_ASIGNACION_def)
  have ok: "configureStore_ret store_ok_input = CO_LSSmaster_OK"
    by (simp add: store_ok_input_def idle_input_def)
  have q: "lssState configuring = LSS_CONFIG_ID" "id_attempt_rounds configuring = 0"
    "current_candidate_id configuring = 0x10"
    by (simp_all add: configuring_def lss_initial_def)
  have rej: "configureNodeId_ret id_rejected_input = CO_LSSmaster_OK_ILLEGAL_ARGUMENT"
    by (simp add: id_rejected_input_def idle_input_def)
  note inst = node_id_allocation
    [where ?s0.0 = lss_initial and s = storing and inp = store_ok_input and s' = stored
       and acts = "[ConfigureStore, SwStateDeselect]" and c = "0x10" and c' = "0x10"
       and evs = commission_A and r = commissioned_A
       and racts = "[ConfigureNodeId 0x10, ConfigureStore, SwStateDeselect]"
       and q = configuring and rej = id_rejected_input]
  from inst s1 ok store_result have n1: "next_id_to_assign stored = 0x10 + 1" by simp
  from inst have a1: "advance_id 0x10 = 0x10 + 1" by simp
  from inst commission_A_result have m: "next_id_to_assign commissioned_A \<noteq> MASTER_NODE_ID" by blast
  have range: "(2 :: u8) \<le> 0x10" "(0x10 :: u8) \<le> 127" by simp_all
  from inst q rej range
  have keep: "\<forall>n \<le> 126. \<exists>q' a. lss_run (replicate n (Tick id_rejected_input)) configuring = Some (q', a)
                 \<and> lssState q' = LSS_CONFIG_ID"
    and stop: "\<exists>q' a. lss_run (replicate 127 (Tick id_rejected_input)) configuring = Some (q', a)
                 \<and> lssState q' = LSS_DONE"
    by auto
  from keep have k: "map_option lssState (map_option fst (lss_run (replicate 126 (Tick id_rejected_input)) configuring))
       = Some LSS_CONFIG_ID"
    by (auto dest!: spec [of _ 126])
  from stop have st: "map_option lssState (map_option fst (lss_run (replicate 127 (Tick id_rejected_input)) configuring))
       = Some LSS_DONE"
    by auto
  show ?thesis
    using s1 ok store_result n1 a1 commission_A_result m q rej k st by simp
qed

section \<open>A scan without progress\<close>

text \<open>
  When the fastscan loop is entered with \<^verbatim>\<open>last_step_at_check\<close> not above
  \<^verbatim>\<open>steps\<close>, as it is from the head of \<^verbatim>\<open>LSS_SCANNING\<close>, the value of
  \<^verbatim>\<open>ret\<close> at the exit is the value that the last call of the fastscan service
  returned: the step counter has grown with every call.
\<close>

lemma fastscan_loop_exit_value:
  "last_step_at_check \<le> steps \<Longrightarrow> 0 \<le> steps \<Longrightarrow>
   fastscan_loop fuel inp d ret steps last_step_at_check lc tk = Some (r, n, tk') \<Longrightarrow>
   (if ret = CO_LSSmaster_WAIT_SLAVE then steps < n \<and> r = fastscan_ret inp (nat (n - 1))
    else r = ret \<and> n = steps)"
proof (induction fuel arbitrary: ret steps last_step_at_check lc tk)
  case 0
  then show ?case by (subst (asm) fastscan_loop.simps) (simp split: if_splits)
next
  case (Suc fuel)
  show ?case
  proof (cases "ret = CO_LSSmaster_WAIT_SLAVE")
    case False
    with Suc.prems show ?thesis by (subst (asm) fastscan_loop.simps) simp
  next
    case True
    have neq: "steps + 1 \<noteq> last_step_at_check" using Suc.prems(1) by simp
    from Suc.prems(3) True neq
    consider
      (stop) "r = fastscan_ret inp (nat steps)" "n = steps + 1"
    | (go) ls' lc' tk0 where
        "fastscan_loop fuel inp d (fastscan_ret inp (nat steps)) (steps + 1) ls' lc' tk0 = Some (r, n, tk')"
        "ls' \<le> steps + 1"
      using Suc.prems(1)
      by (subst (asm) fastscan_loop.simps) (auto simp add: Let_def split: if_splits)
    then show ?thesis
    proof cases
      case stop
      with True Suc.prems(2) show ?thesis by simp
    next
      case go
      from Suc.IH [OF go(2) _ go(1)] Suc.prems(2)
      have "if fastscan_ret inp (nat steps) = CO_LSSmaster_WAIT_SLAVE
            then steps + 1 < n \<and> r = fastscan_ret inp (nat (n - 1))
            else r = fastscan_ret inp (nat steps) \<and> n = steps + 1"
        by simp
      with True Suc.prems(2) show ?thesis by (auto split: if_splits)
    qed
  qed
qed









end
